theory Spec2Isabelle
  imports Main
begin

section \<open>Strings as Python handles them\<close>

text \<open>
  Strings are UTF-8 byte lists. The tomato emoji U+1F345 that marks a calendar title is the
  four bytes F0 9F 8D 85; searching for and removing that code point in a Python string is
  searching for and removing that byte sequence in valid UTF-8, and so is any test for an
  ASCII substring. \<open>lower\<close> maps the ASCII capitals: no other character has one of the
  letters of \<open>pomodoro\<close> in its lower case, so that is all the keyword test can observe.
\<close>

definition tomato :: string where
  "tomato = [CHR 0xF0, CHR 0x9F, CHR 0x8D, CHR 0x85]"

definition startswith :: "string \<Rightarrow> string \<Rightarrow> bool" where
  "startswith s p = (take (length p) s = p)"

fun contains :: "string \<Rightarrow> string \<Rightarrow> bool" where
  "contains [] sub = (sub = [])"
| "contains (c # cs) sub = (startswith (c # cs) sub \<or> contains cs sub)"

text \<open>\<open>s.replace(old, '')\<close> for a non-empty \<open>old\<close>: left to right, non-overlapping.\<close>

function remove_all :: "string \<Rightarrow> string \<Rightarrow> string" where
  "remove_all old [] = []"
| "remove_all old (c # cs) =
     (if old \<noteq> [] \<and> startswith (c # cs) old
      then remove_all old (drop (length old) (c # cs))
      else c # remove_all old cs)"
  by pat_completeness auto
termination
  by (relation "measure (\<lambda>(old, s). length s)") (auto simp: neq_Nil_conv)

definition endswith :: "string \<Rightarrow> string \<Rightarrow> bool" where
  "endswith s p = (length p \<le> length s \<and> drop (length s - length p) s = p)"

text \<open>
  \<open>str.strip()\<close> removes from both ends every character that \<open>str.isspace\<close> accepts:
  U+0009 to U+000D, U+001C to U+0020, U+0085, U+00A0, U+1680, U+2000 to U+200A, U+2028,
  U+2029, U+202F, U+205F and U+3000, here in their UTF-8 encodings. A lead byte never occurs
  inside the encoding of another character, so a string of valid UTF-8 starts or ends with
  one of these byte sequences exactly when its first or last character is that character.
\<close>

definition whitespace :: "string list" where
  "whitespace =
     [[CHR 0x09], [CHR 0x0A], [CHR 0x0B], [CHR 0x0C], [CHR 0x0D],
      [CHR 0x1C], [CHR 0x1D], [CHR 0x1E], [CHR 0x1F], [CHR 0x20],
      [CHR 0xC2, CHR 0x85], [CHR 0xC2, CHR 0xA0], [CHR 0xE1, CHR 0x9A, CHR 0x80],
      [CHR 0xE2, CHR 0x80, CHR 0x80], [CHR 0xE2, CHR 0x80, CHR 0x81],
      [CHR 0xE2, CHR 0x80, CHR 0x82], [CHR 0xE2, CHR 0x80, CHR 0x83],
      [CHR 0xE2, CHR 0x80, CHR 0x84], [CHR 0xE2, CHR 0x80, CHR 0x85],
      [CHR 0xE2, CHR 0x80, CHR 0x86], [CHR 0xE2, CHR 0x80, CHR 0x87],
      [CHR 0xE2, CHR 0x80, CHR 0x88], [CHR 0xE2, CHR 0x80, CHR 0x89],
      [CHR 0xE2, CHR 0x80, CHR 0x8A], [CHR 0xE2, CHR 0x80, CHR 0xA8],
      [CHR 0xE2, CHR 0x80, CHR 0xA9], [CHR 0xE2, CHR 0x80, CHR 0xAF],
      [CHR 0xE2, CHR 0x81, CHR 0x9F], [CHR 0xE3, CHR 0x80, CHR 0x80]]"

function lstrip :: "string \<Rightarrow> string" where
  "lstrip s = (case filter (startswith s) whitespace of
                 [] \<Rightarrow> s
               | w # _ \<Rightarrow> lstrip (drop (length w) s))"
  by pat_completeness auto
termination
proof (relation "measure length")
  show "wf (measure length)" by simp
next
  fix s :: string and w ws
  assume "filter (startswith s) whitespace = w # ws"
  then have "w \<in> set (filter (startswith s) whitespace)" by simp
  then have "w \<in> set whitespace" and "startswith s w" by auto
  then have "w \<noteq> []" and "s \<noteq> []"
    by (auto simp: whitespace_def startswith_def)
  then show "(drop (length w) s, s) \<in> measure length"
    by simp
qed

function rstrip :: "string \<Rightarrow> string" where
  "rstrip s = (case filter (endswith s) whitespace of
                 [] \<Rightarrow> s
               | w # _ \<Rightarrow> rstrip (take (length s - length w) s))"
  by pat_completeness auto
termination
proof (relation "measure length")
  show "wf (measure length)" by simp
next
  fix s :: string and w ws
  assume "filter (endswith s) whitespace = w # ws"
  then have "w \<in> set (filter (endswith s) whitespace)" by simp
  then have "w \<in> set whitespace" and "endswith s w" by auto
  then have "w \<noteq> []" and "s \<noteq> []"
    by (auto simp: whitespace_def endswith_def)
  then show "(take (length s - length w) s, s) \<in> measure length"
    by simp
qed

declare lstrip.simps [simp del] rstrip.simps [simp del]

definition strip :: "string \<Rightarrow> string" where
  "strip s = rstrip (lstrip s)"

definition lower_char :: "char \<Rightarrow> char" where
  "lower_char c =
     (case map_of (zip ''ABCDEFGHIJKLMNOPQRSTUVWXYZ'' ''abcdefghijklmnopqrstuvwxyz'') c of
        Some d \<Rightarrow> d
      | None \<Rightarrow> c)"

definition lower :: "string \<Rightarrow> string" where
  "lower s = map lower_char s"

text \<open>Decimal rendering of an integer, as an f-string renders it.\<close>

definition digit_char :: "nat \<Rightarrow> char" where
  "digit_char d = ''0123456789'' ! d"

fun str_nat :: "nat \<Rightarrow> string" where
  "str_nat n = (if n < 10 then [digit_char n] else str_nat (n div 10) @ [digit_char (n mod 10)])"

definition str_int :: "int \<Rightarrow> string" where
  "str_int i = (if i < 0 then CHR ''-'' # str_nat (nat (- i)) else str_nat (nat i))"

section \<open>The local store: sessions and sync mappings\<close>

text \<open>
  Timestamps are whole seconds since 1970-01-01T00:00:00 on one UTC axis; the ISO-8601 text
  that SQLite holds is the rendering of such a number, so formatting and parsing it back are
  the identity. A column that received the text of a date without a time holds, for every
  reader (\<open>datetime.fromisoformat\<close>, \<open>julianday\<close>), the midnight that opens the day. The
  sessions are a list of rows in rowid order and the mappings a list of rows in the order of
  their insertion. \<open>next_id\<close> is the AUTOINCREMENT counter of the sessions table: the id the
  next inserted row receives.
\<close>

record session =
  sid :: int
  task_name :: string
  duration_seconds :: int
  start_time :: int
  end_time :: "int option"
  status :: string
  completed_seconds :: int

record sync_mapping =
  session_id :: int
  calendar_uid :: string
  calendar_url :: "string option"
  last_synced :: int

record database =
  sessions :: "session list"
  mappings :: "sync_mapping list"
  next_id :: int

definition init_db :: database where
  "init_db = \<lparr>sessions = [], mappings = [], next_id = 1\<rparr>"

text \<open>
  \<open>SELECT * FROM sessions ORDER BY start_time DESC\<close>. The order of the ISO texts is the order
  of the instants they denote; rows of equal start stay in rowid order.
\<close>

definition get_all_sessions :: "database \<Rightarrow> session list" where
  "get_all_sessions db = sort_key (\<lambda>s. - start_time s) (sessions db)"

definition session_exists :: "database \<Rightarrow> int \<Rightarrow> bool" where
  "session_exists db i = (length (filter (\<lambda>s. sid s = i) (sessions db)) > 0)"

text \<open>
  \<open>update_session\<close>: every keyword argument that is not \<open>None\<close> contributes one
  assignment of the \<open>UPDATE ... WHERE id = ?\<close>.
\<close>

definition apply_updates ::
  "string option \<Rightarrow> int option \<Rightarrow> int option \<Rightarrow> int option \<Rightarrow> string option \<Rightarrow> int option
    \<Rightarrow> session \<Rightarrow> session" where
  "apply_updates tn ds st et stat cs s =
     (let s1 = (case tn of None \<Rightarrow> s | Some v \<Rightarrow> s\<lparr>task_name := v\<rparr>);
          s2 = (case ds of None \<Rightarrow> s1 | Some v \<Rightarrow> s1\<lparr>duration_seconds := v\<rparr>);
          s3 = (case st of None \<Rightarrow> s2 | Some v \<Rightarrow> s2\<lparr>start_time := v\<rparr>);
          s4 = (case et of None \<Rightarrow> s3 | Some v \<Rightarrow> s3\<lparr>end_time := Some v\<rparr>);
          s5 = (case stat of None \<Rightarrow> s4 | Some v \<Rightarrow> s4\<lparr>status := v\<rparr>);
          s6 = (case cs of None \<Rightarrow> s5 | Some v \<Rightarrow> s5\<lparr>completed_seconds := v\<rparr>)
      in s6)"

definition update_session ::
  "database \<Rightarrow> int \<Rightarrow> string option \<Rightarrow> int option \<Rightarrow> int option \<Rightarrow> int option
    \<Rightarrow> string option \<Rightarrow> int option \<Rightarrow> database" where
  "update_session db i tn ds st et stat cs =
     db\<lparr>sessions := map (\<lambda>s. if sid s = i then apply_updates tn ds st et stat cs s else s)
                         (sessions db)\<rparr>"

text \<open>
  The arithmetic of \<open>ABS(CAST((julianday(start_time) - julianday(?)) * 86400 AS INTEGER))\<close>.
  SQLite computes in IEEE-754 doubles: \<open>julianday\<close> is the number of milliseconds since the
  Julian epoch divided by 86400000, the difference and the product are rounded to the
  nearest double (ties to even), and the cast cuts the fraction off towards zero. A double
  is kept as a fraction of two integers with a positive denominator; \<open>bits n\<close> is the
  number of binary digits of a positive \<open>n\<close>, and \<open>round_double n d\<close> is the double nearest
  to \<open>n / d\<close>, a multiple of a power of two with at most 53 significant bits. The exponent
  range is not modelled: the numbers here are far from its ends. The starts are those of
  the years 0000 to 9999, which are all that SQLite's date functions and Python's \<open>datetime\<close>
  accept.
\<close>

function bits :: "int \<Rightarrow> nat" where
  "bits n = (if n \<le> 0 then 0 else Suc (bits (n div 2)))"
  by pat_completeness auto
termination
  by (relation "measure nat") auto

declare bits.simps [simp del]

definition pow2 :: "int \<Rightarrow> int \<times> int" where
  "pow2 k = (if 0 \<le> k then (2 ^ nat k, 1) else (1, 2 ^ nat (- k)))"

definition round_half_even :: "int \<Rightarrow> int \<Rightarrow> int" where
  "round_half_even n d =
     (let q = n div d; r = n mod d
      in if 2 * r < d then q else if d < 2 * r then q + 1 else if even q then q else q + 1)"

definition round_double :: "int \<Rightarrow> int \<Rightarrow> int \<times> int" where
  "round_double n d =
     (if n = 0 then (0, 1)
      else
        (let a = \<bar>n\<bar>;
             k0 = int (bits a) - int (bits d) - 53;
             (u0, v0) = pow2 (k0 + 53);
             k = (if a * v0 < d * u0 then k0 else k0 + 1);
             (u, v) = pow2 k
         in (sgn n * round_half_even (a * v) (d * u) * u, v)))"

definition julian_ms :: "int \<Rightarrow> int" where
  "julian_ms t = 210866760000000 + 1000 * t"

definition julianday :: "int \<Rightarrow> int \<times> int" where
  "julianday t = round_double (julian_ms t) 86400000"

definition double_minus :: "int \<times> int \<Rightarrow> int \<times> int \<Rightarrow> int \<times> int" where
  "double_minus x y = round_double (fst x * snd y - fst y * snd x) (snd x * snd y)"

definition double_times :: "int \<times> int \<Rightarrow> int \<times> int \<Rightarrow> int \<times> int" where
  "double_times x y = round_double (fst x * fst y) (snd x * snd y)"

definition cast_integer :: "int \<times> int \<Rightarrow> int" where
  "cast_integer x = sgn (fst x) * (\<bar>fst x\<bar> div snd x)"

text \<open>
  \<open>find_session_by_time_and_task\<close>: the rows with this task name whose start lies within the
  tolerance, the closest first, \<open>LIMIT 1\<close>; near and close are what the expression above
  makes of the two starts. SQLite leaves the order of equally close rows open; the model
  keeps rowid order among them, as SQLite's sorter does.
\<close>

definition time_distance :: "int \<Rightarrow> session \<Rightarrow> int" where
  "time_distance t s =
     \<bar>cast_integer (double_times (double_minus (julianday (start_time s)) (julianday t))
                      (86400, 1))\<bar>"

definition find_session_by_time_and_task ::
  "database \<Rightarrow> int \<Rightarrow> string \<Rightarrow> int \<Rightarrow> session option" where
  "find_session_by_time_and_task db t tn tolerance_minutes =
     (case sort_key (time_distance t)
             (filter (\<lambda>s. task_name s = tn \<and> time_distance t s \<le> tolerance_minutes * 60)
                (sessions db)) of
        [] \<Rightarrow> None
      | s # _ \<Rightarrow> Some s)"

definition delete_session :: "database \<Rightarrow> int \<Rightarrow> database" where
  "delete_session db i = db\<lparr>sessions := filter (\<lambda>s. sid s \<noteq> i) (sessions db)\<rparr>"

text \<open>\<open>add_session\<close> returns the new row's id (\<open>cursor.lastrowid\<close>) with the store.\<close>

definition add_session ::
  "database \<Rightarrow> string \<Rightarrow> int \<Rightarrow> int \<Rightarrow> int option \<Rightarrow> string \<Rightarrow> int \<Rightarrow> int \<times> database" where
  "add_session db tn ds st et stat cs =
     (next_id db,
      db\<lparr>sessions := sessions db @
            [\<lparr>sid = next_id db, task_name = tn, duration_seconds = ds, start_time = st,
              end_time = et, status = stat, completed_seconds = cs\<rparr>],
         next_id := next_id db + 1\<rparr>)"

text \<open>
  The selectors of \<open>get_sync_mapping\<close> and \<open>delete_sync_mapping\<close> are tested for Python
  truthiness: a session id of 0 and an empty UID count as not given.
\<close>

definition given_int :: "int option \<Rightarrow> bool" where
  "given_int a = (case a of None \<Rightarrow> False | Some i \<Rightarrow> i \<noteq> 0)"

definition given_str :: "string option \<Rightarrow> bool" where
  "given_str a = (case a of None \<Rightarrow> False | Some u \<Rightarrow> u \<noteq> [])"

definition get_sync_mapping :: "database \<Rightarrow> int option \<Rightarrow> string option \<Rightarrow> sync_mapping list" where
  "get_sync_mapping db i u =
     (if given_int i then filter (\<lambda>m. Some (session_id m) = i) (mappings db)
      else if given_str u then filter (\<lambda>m. Some (calendar_uid m) = u) (mappings db)
      else mappings db)"

text \<open>
  \<open>INSERT OR REPLACE\<close> on a table whose \<open>session_id\<close> is the primary key and whose
  \<open>calendar_uid\<close> is \<open>UNIQUE\<close>: every row that conflicts with the new one on either column
  is deleted before the new row is inserted.
\<close>

definition set_sync_mapping_rows ::
  "sync_mapping list \<Rightarrow> int \<Rightarrow> int \<Rightarrow> string \<Rightarrow> string option \<Rightarrow> sync_mapping list" where
  "set_sync_mapping_rows ms now i u url =
     filter (\<lambda>m. session_id m \<noteq> i \<and> calendar_uid m \<noteq> u) ms @
       [\<lparr>session_id = i, calendar_uid = u, calendar_url = url, last_synced = now\<rparr>]"

definition set_sync_mapping :: "database \<Rightarrow> int \<Rightarrow> int \<Rightarrow> string \<Rightarrow> string option \<Rightarrow> database" where
  "set_sync_mapping db now i u url = db\<lparr>mappings := set_sync_mapping_rows (mappings db) now i u url\<rparr>"

definition delete_sync_mapping_rows ::
  "sync_mapping list \<Rightarrow> int option \<Rightarrow> string option \<Rightarrow> sync_mapping list" where
  "delete_sync_mapping_rows ms i u =
     (if given_int i then filter (\<lambda>m. Some (session_id m) \<noteq> i) ms
      else if given_str u then filter (\<lambda>m. Some (calendar_uid m) \<noteq> u) ms
      else ms)"

definition delete_sync_mapping :: "database \<Rightarrow> int option \<Rightarrow> string option \<Rightarrow> database" where
  "delete_sync_mapping db i u = db\<lparr>mappings := delete_sync_mapping_rows (mappings db) i u\<rparr>"

text \<open>The two key constraints of the \<open>sync_mapping\<close> table.\<close>

definition mapping_unique :: "sync_mapping list \<Rightarrow> bool" where
  "mapping_unique ms = (distinct (map session_id ms) \<and> distinct (map calendar_uid ms))"

text \<open>The states of the mapping table: empty at \<open>init_db\<close>, then any upsert or delete.\<close>

inductive reachable_mappings :: "sync_mapping list \<Rightarrow> bool" where
  reach_init: "reachable_mappings (mappings init_db)"
| reach_set: "reachable_mappings ms \<Longrightarrow> reachable_mappings (set_sync_mapping_rows ms now i u url)"
| reach_delete: "reachable_mappings ms \<Longrightarrow> reachable_mappings (delete_sync_mapping_rows ms i u)"

section \<open>The remote calendar\<close>

text \<open>
  The calendar collection on the server is a list of events, each a resource at its own URL.
  Every protocol operation can raise; which call raises what is given by the server's
  behaviour, held in the \<open>calendar\<close> record with the events: an operation returns the
  exception's text on the left or its result on the right. \<open>in_range\<close> is the server's
  time-range filter. \<open>event.load()\<close> only refreshes the ETag of the local copy and its
  failure is swallowed, so it has no counterpart here; what the program prints is not
  modelled either.

  The \<open>.dt\<close> of a \<open>DTSTART\<close> or \<open>DTEND\<close> is a Python \<open>datetime\<close>, or a \<open>date\<close> when the property
  is of value type DATE (an all-day event): a second on the axis of the store, or the number
  of a day counted from 1970-01-01.
\<close>

datatype ical_time = DateTime int | Date int

record event =
  ev_uid :: string
  ev_summary :: string
  ev_description :: string
  ev_dtstart :: "ical_time option"
  ev_dtend :: "ical_time option"
  ev_url :: string

record calendar =
  cal_events :: "event list"
  in_range :: "int \<Rightarrow> int \<Rightarrow> event \<Rightarrow> bool"
  search_uid_error :: "string \<Rightarrow> string option"
  search_range_error :: "string option"
  save_error :: "string \<Rightarrow> string option"
  delete_error :: "string \<Rightarrow> string option"
  direct_delete_error :: "string \<Rightarrow> string option"
  add_error :: "string \<Rightarrow> string option"

definition is_412_error :: "string \<Rightarrow> bool" where
  "is_412_error error_str = (contains error_str ''412'' \<or> contains error_str ''Precondition Failed'')"

definition search_uid :: "calendar \<Rightarrow> string \<Rightarrow> string + event list" where
  "search_uid c u =
     (case search_uid_error c u of
        Some e \<Rightarrow> Inl e
      | None \<Rightarrow> Inr (filter (\<lambda>e. ev_uid e = u) (cal_events c)))"

definition search_range :: "calendar \<Rightarrow> int \<Rightarrow> int \<Rightarrow> string + event list" where
  "search_range c lo hi =
     (case search_range_error c of
        Some e \<Rightarrow> Inl e
      | None \<Rightarrow> Inr (filter (in_range c lo hi) (cal_events c)))"

text \<open>\<open>event.save()\<close>: a PUT of the changed copy to the event's URL.\<close>

definition event_save :: "calendar \<Rightarrow> event \<Rightarrow> string + calendar" where
  "event_save c ev =
     (case save_error c (ev_url ev) of
        Some e \<Rightarrow> Inl e
      | None \<Rightarrow> Inr (c\<lparr>cal_events := map (\<lambda>x. if ev_url x = ev_url ev then ev else x) (cal_events c)\<rparr>))"

text \<open>\<open>event.delete()\<close> and \<open>calendar.client.delete(url)\<close>: a DELETE of the resource.\<close>

definition event_delete :: "calendar \<Rightarrow> event \<Rightarrow> string + calendar" where
  "event_delete c ev =
     (case delete_error c (ev_url ev) of
        Some e \<Rightarrow> Inl e
      | None \<Rightarrow> Inr (c\<lparr>cal_events := filter (\<lambda>x. ev_url x \<noteq> ev_url ev) (cal_events c)\<rparr>))"

definition client_delete :: "calendar \<Rightarrow> string \<Rightarrow> string + calendar" where
  "client_delete c url =
     (case direct_delete_error c url of
        Some e \<Rightarrow> Inl e
      | None \<Rightarrow> Inr (c\<lparr>cal_events := filter (\<lambda>x. ev_url x \<noteq> url) (cal_events c)\<rparr>))"

text \<open>
  \<open>calendar.add_event(ical)\<close>: the client library PUTs the new object at the path it builds
  from the UID, so an object already at that path is replaced. Push passes date-times.
\<close>

definition url_for :: "string \<Rightarrow> string" where
  "url_for u = u @ ''.ics''"

definition add_event :: "calendar \<Rightarrow> string \<Rightarrow> string \<Rightarrow> string \<Rightarrow> int \<Rightarrow> int \<Rightarrow> string + calendar" where
  "add_event c u summary description dtstart dtend =
     (case add_error c u of
        Some e \<Rightarrow> Inl e
      | None \<Rightarrow>
          Inr (c\<lparr>cal_events := filter (\<lambda>x. ev_url x \<noteq> url_for u) (cal_events c) @
                 [\<lparr>ev_uid = u, ev_summary = summary, ev_description = description,
                   ev_dtstart = Some (DateTime dtstart), ev_dtend = Some (DateTime dtend),
                   ev_url = url_for u\<rparr>]\<rparr>))"

section \<open>The sync engine\<close>

text \<open>
  \<open>CalDAVSync\<close>: the configured URL, whether \<open>self.calendar\<close> is set, the local store and
  the server. \<open>connect_error\<close> is what reaching and authenticating to the server raises
  (\<open>None\<close> when it succeeds).
\<close>

record engine =
  config_url :: "string option"
  connected :: bool
  connect_error :: "string option"
  db :: database
  cal :: calendar

definition connect :: "engine \<Rightarrow> (bool \<times> string option) \<times> engine" where
  "connect st =
     (if \<not> given_str (config_url st) then ((False, Some ''No CalDAV URL configured''), st)
      else case connect_error st of
             Some e \<Rightarrow> ((False, Some e), st)
           | None \<Rightarrow> ((True, None), st\<lparr>connected := True\<rparr>))"

text \<open>
  The guard that opens both sync directions: \<open>None\<close> when a calendar is at hand, else the
  text of the failure result (\<open>error or 'Not connected to CalDAV server'\<close>).
\<close>

definition ensure_connected :: "engine \<Rightarrow> string option \<times> engine" where
  "ensure_connected st =
     (if connected st then (None, st)
      else case connect st of
             ((True, _), st') \<Rightarrow> (None, st')
           | ((False, error), st') \<Rightarrow>
               (Some (if given_str error then the error else ''Not connected to CalDAV server''), st'))"

definition session_uid :: "int \<Rightarrow> string" where
  "session_uid i = ''pomodoro-'' @ str_int i @ ''@pomodoro-timer''"

definition session_summary :: "session \<Rightarrow> string" where
  "session_summary s = tomato @ '' '' @ task_name s"

definition session_description :: "session \<Rightarrow> string" where
  "session_description s =
     ''Pomodoro session: '' @ task_name s @ [CHR 0x0A] @
     ''Duration: '' @ str_int (duration_seconds s div 60) @ '' minutes'' @ [CHR 0x0A] @
     ''Completed: '' @ str_int (completed_seconds s div 60) @ '' minutes'' @ [CHR 0x0A] @
     ''Status: '' @ status s"

definition session_end :: "session \<Rightarrow> int" where
  "session_end s = (case end_time s of Some e \<Rightarrow> e | None \<Rightarrow> start_time s + duration_seconds s)"

definition is_pomodoro_uid :: "string \<Rightarrow> bool" where
  "is_pomodoro_uid u = (startswith u ''pomodoro-'' \<and> contains u ''@pomodoro-timer'')"

definition has_marker :: "string \<Rightarrow> bool" where
  "has_marker summary = (contains summary tomato \<or> contains (lower summary) ''pomodoro'')"

definition year_seconds :: int where
  "year_seconds = 365 * 86400"

subsection \<open>Push: \<open>sync_to_calendar\<close>\<close>

record push_state =
  ps_db :: database
  ps_cal :: calendar
  ps_synced :: nat
  ps_updated :: nat
  ps_deleted :: nat

text \<open>
  The delete used by both sweeps: \<open>event.delete()\<close>, and when that raises, a DELETE of the
  event's URL; an event counts as deleted when either went through.
\<close>

definition try_delete :: "push_state \<Rightarrow> event \<Rightarrow> push_state" where
  "try_delete ps ev =
     (case event_delete (ps_cal ps) ev of
        Inr c \<Rightarrow> ps\<lparr>ps_cal := c, ps_deleted := ps_deleted ps + 1\<rparr>
      | Inl delete_exc \<Rightarrow>
          (case client_delete (ps_cal ps) (ev_url ev) of
             Inr c \<Rightarrow> ps\<lparr>ps_cal := c, ps_deleted := ps_deleted ps + 1\<rparr>
           | Inl direct_delete_exc \<Rightarrow> ps))"

text \<open>First sweep, one mapping: a mapping whose session is gone loses its event and its row.\<close>

definition sweep_mapping :: "int list \<Rightarrow> push_state \<Rightarrow> sync_mapping \<Rightarrow> push_state" where
  "sweep_mapping session_ids ps m =
     (if session_id m \<in> set session_ids then ps
      else case search_uid (ps_cal ps) (calendar_uid m) of
             Inr events \<Rightarrow>
               (let ps1 = (case events of [] \<Rightarrow> ps | ev # _ \<Rightarrow> try_delete ps ev)
                in ps1\<lparr>ps_db := delete_sync_mapping (ps_db ps1) None (Some (calendar_uid m))\<rparr>)
           | Inl e \<Rightarrow> ps\<lparr>ps_db := delete_sync_mapping (ps_db ps) None (Some (calendar_uid m))\<rparr>)"

text \<open>Second sweep, one event of the calendar: ours, not expected, and without a live mapping.\<close>

definition sweep_event :: "int list \<Rightarrow> string list \<Rightarrow> push_state \<Rightarrow> event \<Rightarrow> push_state" where
  "sweep_event session_ids expected_uids ps ev =
     (if is_pomodoro_uid (ev_uid ev) \<or> has_marker (ev_summary ev) then
        if ev_uid ev \<notin> set expected_uids then
          (case get_sync_mapping (ps_db ps) None (Some (ev_uid ev)) of
             [] \<Rightarrow> try_delete ps ev
           | m # _ \<Rightarrow>
               if session_id m \<notin> set session_ids then
                 (let ps1 = try_delete ps ev
                  in ps1\<lparr>ps_db := delete_sync_mapping (ps_db ps1) None (Some (ev_uid ev))\<rparr>)
               else ps)
        else ps
      else ps)"

text \<open>
  The second sweep as a whole; the number of events it looked at is kept for the message
  (\<open>None\<close> when the search raised and \<open>all_calendar_events\<close> was never bound).
\<close>

definition sweep_calendar ::
  "int \<Rightarrow> int list \<Rightarrow> string list \<Rightarrow> push_state \<Rightarrow> push_state \<times> nat option" where
  "sweep_calendar now session_ids expected_uids ps =
     (case search_range (ps_cal ps) (now - year_seconds) (now + year_seconds) of
        Inl e \<Rightarrow> (ps, None)
      | Inr all_calendar_events \<Rightarrow>
          (foldl (sweep_event session_ids expected_uids) ps all_calendar_events,
           Some (length all_calendar_events)))"

text \<open>
  The handler of the mapped branch (the search raised, or the re-creation of a vanished event
  did): create the event under the mapped UID; an exception here leaves the loop.
\<close>

definition recreate_mapped :: "push_state \<Rightarrow> session \<Rightarrow> string \<Rightarrow> string + push_state" where
  "recreate_mapped ps s u =
     (case add_event (ps_cal ps) u (session_summary s) (session_description s)
             (start_time s) (session_end s) of
        Inl e \<Rightarrow> Inl e
      | Inr c \<Rightarrow> Inr (ps\<lparr>ps_cal := c, ps_synced := ps_synced ps + 1\<rparr>))"

text \<open>
  The update of a found event. Assigning \<open>dtstart\<close> or \<open>dtend\<close> of an event that lacks the
  property raises as a failed save does; then the event is deleted (errors ignored) and
  created again under the mapped UID, and only a failure of that creation goes uncounted.
\<close>

definition update_event :: "push_state \<Rightarrow> session \<Rightarrow> string \<Rightarrow> event \<Rightarrow> push_state" where
  "update_event ps s u ev =
     (case (if ev_dtstart ev = None then Inl ''dtstart''
            else if ev_dtend ev = None then Inl ''dtend''
            else event_save (ps_cal ps)
                   (ev\<lparr>ev_summary := session_summary s, ev_description := session_description s,
                       ev_dtstart := Some (DateTime (start_time s)),
                       ev_dtend := Some (DateTime (session_end s))\<rparr>)) of
        Inr c \<Rightarrow> ps\<lparr>ps_cal := c, ps_updated := ps_updated ps + 1\<rparr>
      | Inl save_exc \<Rightarrow>
          (let c1 = (case event_delete (ps_cal ps) ev of Inr c \<Rightarrow> c | Inl _ \<Rightarrow> ps_cal ps)
           in case add_event c1 u (session_summary s) (session_description s)
                     (start_time s) (session_end s) of
                Inr c2 \<Rightarrow> ps\<lparr>ps_cal := c2, ps_updated := ps_updated ps + 1\<rparr>
              | Inl recreate_exc \<Rightarrow> ps\<lparr>ps_cal := c1\<rparr>))"

text \<open>One session of the push loop; \<open>Inl\<close> is an exception that reaches the outer handler.\<close>

definition push_session :: "int \<Rightarrow> push_state \<Rightarrow> session \<Rightarrow> string + push_state" where
  "push_session now ps s =
     (case get_sync_mapping (ps_db ps) (Some (sid s)) None of
        m # _ \<Rightarrow>
          (case search_uid (ps_cal ps) (calendar_uid m) of
             Inr (ev # _) \<Rightarrow> Inr (update_event ps s (calendar_uid m) ev)
           | Inr [] \<Rightarrow>
               (case recreate_mapped ps s (calendar_uid m) of
                  Inr ps' \<Rightarrow> Inr ps'
                | Inl e \<Rightarrow> recreate_mapped ps s (calendar_uid m))
           | Inl e \<Rightarrow> recreate_mapped ps s (calendar_uid m))
      | [] \<Rightarrow>
          (case add_event (ps_cal ps) (session_uid (sid s)) (session_summary s)
                  (session_description s) (start_time s) (session_end s) of
             Inl e \<Rightarrow> Inl e
           | Inr c \<Rightarrow>
               Inr (ps\<lparr>ps_cal := c,
                       ps_db := set_sync_mapping (ps_db ps) now (sid s) (session_uid (sid s)) None,
                       ps_synced := ps_synced ps + 1\<rparr>)))"

fun push_sessions :: "int \<Rightarrow> push_state \<Rightarrow> session list \<Rightarrow> string option \<times> push_state" where
  "push_sessions now ps [] = (None, ps)"
| "push_sessions now ps (s # ss) =
     (case push_session now ps s of
        Inl e \<Rightarrow> (Some e, ps)
      | Inr ps' \<Rightarrow> push_sessions now ps' ss)"

datatype push_result =
  PushError string
| PushOk (synced: nat) (push_updated: nat) (deleted: nat) (push_message: string)

definition push_ok :: "push_result \<Rightarrow> bool" where
  "push_ok r = (case r of PushError _ \<Rightarrow> False | PushOk _ _ _ _ \<Rightarrow> True)"

definition expected_uids_of :: "session list \<Rightarrow> sync_mapping list \<Rightarrow> string list" where
  "expected_uids_of ss all_mappings =
     map (\<lambda>s. session_uid (sid s)) ss @
     map calendar_uid (filter (\<lambda>m. session_id m \<in> set (map sid ss)) all_mappings)"

definition push_message_of :: "nat \<Rightarrow> nat \<Rightarrow> nat \<Rightarrow> nat \<Rightarrow> nat \<Rightarrow> nat option \<Rightarrow> string" where
  "push_message_of n_synced n_updated n_deleted n_sessions n_mappings checked =
     ''Synced '' @ str_nat n_synced @ '' new, updated '' @ str_nat n_updated @ '' existing'' @
     (if n_deleted > 0 then '', deleted '' @ str_nat n_deleted @ '' removed events''
      else if n_sessions = 0 \<and> n_mappings > 0 then
        '' (checked '' @ str_nat (case checked of Some n \<Rightarrow> n | None \<Rightarrow> 0) @
        '' calendar events for deletion)''
      else [])"

definition sync_to_calendar :: "int \<Rightarrow> engine \<Rightarrow> push_result \<times> engine" where
  "sync_to_calendar now st =
     (case ensure_connected st of
        (Some error, st1) \<Rightarrow> (PushError error, st1)
      | (None, st1) \<Rightarrow>
          (let ss = get_all_sessions (db st1);
               all_mappings = get_sync_mapping (db st1) None None;
               session_ids = map sid ss;
               expected_uids = expected_uids_of ss all_mappings;
               ps0 = \<lparr>ps_db = db st1, ps_cal = cal st1, ps_synced = 0, ps_updated = 0, ps_deleted = 0\<rparr>;
               ps1 = foldl (sweep_mapping session_ids) ps0 all_mappings;
               (ps2, checked) = sweep_calendar now session_ids expected_uids ps1;
               (raised, ps3) = push_sessions now ps2 ss;
               st2 = st1\<lparr>db := ps_db ps3, cal := ps_cal ps3\<rparr>
           in case raised of
                Some e \<Rightarrow> (PushError e, st2)
              | None \<Rightarrow>
                  (PushOk (ps_synced ps3) (ps_updated ps3) (ps_deleted ps3)
                     (push_message_of (ps_synced ps3) (ps_updated ps3) (ps_deleted ps3)
                        (length ss) (length all_mappings) checked),
                   st2)))"

subsection \<open>Pull: \<open>sync_from_calendar\<close>\<close>

record pull_state =
  pl_db :: database
  pl_imported :: nat
  pl_updated :: nat
  pl_skipped :: nat

definition derive_task_name :: "string \<Rightarrow> string" where
  "derive_task_name summary =
     (let label = strip (remove_all tomato summary)
      in if label = [] then ''Imported Session'' else label)"

text \<open>
  Python's arithmetic on the two kinds of time. \<open>start + timedelta(minutes=n)\<close> moves a
  \<open>datetime\<close> by the minutes and a \<open>date\<close> by the whole days among them only, which are
  none for 25 minutes. \<open>(end - start).total_seconds()\<close> is defined for two values of one
  kind and raises \<open>TypeError\<close> for a \<open>date\<close> and a \<open>datetime\<close>. \<open>instant\<close> is what the store
  holds once the \<open>isoformat()\<close> of the value was written to a column.
\<close>

definition plus_minutes :: "ical_time \<Rightarrow> int \<Rightarrow> ical_time" where
  "plus_minutes w n =
     (case w of DateTime t \<Rightarrow> DateTime (t + n * 60) | Date d \<Rightarrow> Date (d + n * 60 div 86400))"

definition seconds_between :: "ical_time \<Rightarrow> ical_time \<Rightarrow> string + int" where
  "seconds_between e b =
     (case (e, b) of
        (DateTime x, DateTime y) \<Rightarrow> Inr (x - y)
      | (Date x, Date y) \<Rightarrow> Inr ((x - y) * 86400)
      | _ \<Rightarrow> Inl ''unsupported operand type(s) for -'')"

definition instant :: "ical_time \<Rightarrow> int" where
  "instant w = (case w of DateTime t \<Rightarrow> t | Date d \<Rightarrow> d * 86400)"

text \<open>
  The UID made up for a hand-made event without one. Python's \<open>hash\<close> of the start's text
  followed by the task label is salted per process, so it is the parameter \<open>h\<close>.
\<close>

definition manual_uid :: "(ical_time \<Rightarrow> string \<Rightarrow> int) \<Rightarrow> ical_time \<Rightarrow> string \<Rightarrow> string" where
  "manual_uid h dtstart task_name_temp =
     ''pomodoro-manual-'' @ str_int (h dtstart task_name_temp) @ ''@pomodoro-timer''"

text \<open>The end that pull takes for an event that starts at \<open>dtstart\<close>.\<close>

definition event_end :: "event \<Rightarrow> ical_time \<Rightarrow> ical_time" where
  "event_end ev dtstart = (case ev_dtend ev of Some e \<Rightarrow> e | None \<Rightarrow> plus_minutes dtstart 25)"

text \<open>
  What is done with a recognised event once its times and their difference are known: the
  lookup of the mapping, the fuzzy lookup, and the update, the link or the import.
\<close>

definition store_event ::
  "int \<Rightarrow> pull_state \<Rightarrow> event \<Rightarrow> string \<Rightarrow> string \<Rightarrow> int \<Rightarrow> int \<Rightarrow> int \<Rightarrow> pull_state" where
  "store_event now pl ev uid label start_at end_at duration =
     (case get_sync_mapping (pl_db pl) None (Some uid) of
        m # _ \<Rightarrow>
          if session_exists (pl_db pl) (session_id m) then
            pl\<lparr>pl_db := update_session (pl_db pl) (session_id m) (Some label)
                           (Some duration) (Some start_at) (Some end_at) None None,
               pl_updated := pl_updated pl + 1\<rparr>
          else
            (let db1 = delete_sync_mapping (pl_db pl) None (Some uid);
                 (new_id, db2) = add_session db1 label duration start_at
                                   (Some end_at) ''completed'' duration
             in pl\<lparr>pl_db := set_sync_mapping db2 now new_id uid (Some (ev_url ev)),
                   pl_imported := pl_imported pl + 1\<rparr>)
      | [] \<Rightarrow>
          (case find_session_by_time_and_task (pl_db pl) start_at label 5 of
             Some existing_session \<Rightarrow>
               if get_sync_mapping (pl_db pl) (Some (sid existing_session)) None = [] then
                 pl\<lparr>pl_db := set_sync_mapping
                                (update_session (pl_db pl) (sid existing_session)
                                   (Some label) (Some duration)
                                   (Some start_at) (Some end_at) None None)
                                now (sid existing_session) uid (Some (ev_url ev)),
                    pl_updated := pl_updated pl + 1\<rparr>
               else pl\<lparr>pl_skipped := pl_skipped pl + 1\<rparr>
           | None \<Rightarrow>
               (let (new_id, db1) = add_session (pl_db pl) label duration
                                      start_at (Some end_at) ''completed'' duration
                in pl\<lparr>pl_db := set_sync_mapping db1 now new_id uid (Some (ev_url ev)),
                      pl_imported := pl_imported pl + 1\<rparr>)))"

text \<open>
  The part of one event's handling that follows the computation of its UID. An event without
  a start is passed over; a \<open>TypeError\<close> of the subtraction is caught by the handler of the
  loop body, which counts the event as skipped.
\<close>

definition import_event :: "int \<Rightarrow> pull_state \<Rightarrow> event \<Rightarrow> string \<Rightarrow> pull_state" where
  "import_event now pl ev uid =
     (let label = derive_task_name (ev_summary ev)
      in case ev_dtstart ev of
           None \<Rightarrow> pl
         | Some dtstart \<Rightarrow>
             (let dtend = event_end ev dtstart
              in case seconds_between dtend dtstart of
                   Inl type_error \<Rightarrow> pl\<lparr>pl_skipped := pl_skipped pl + 1\<rparr>
                 | Inr duration \<Rightarrow>
                     store_event now pl ev uid label (instant dtstart) (instant dtend) duration))"

text \<open>
  One event of the pull loop. Reading \<open>dtstart.dt\<close> of an event that has neither a UID nor a
  start raises inside the loop body and the event is counted as skipped.
\<close>

definition pull_event ::
  "(ical_time \<Rightarrow> string \<Rightarrow> int) \<Rightarrow> int \<Rightarrow> pull_state \<Rightarrow> event \<Rightarrow> pull_state" where
  "pull_event h now pl ev =
     (if is_pomodoro_uid (ev_uid ev) then import_event now pl ev (ev_uid ev)
      else if \<not> contains (ev_summary ev) tomato \<and> \<not> contains (lower (ev_summary ev)) ''pomodoro''
      then pl\<lparr>pl_skipped := pl_skipped pl + 1\<rparr>
      else if ev_uid ev = [] then
        (case ev_dtstart ev of
           None \<Rightarrow> pl\<lparr>pl_skipped := pl_skipped pl + 1\<rparr>
         | Some dt \<Rightarrow>
             import_event now pl ev
               (manual_uid h dt
                  (let t = strip (remove_all tomato (ev_summary ev))
                   in if t = [] then ''Imported Session'' else t)))
      else import_event now pl ev (ev_uid ev))"

datatype pull_result =
  PullError string
| PullOk (imported: nat) (pull_updated: nat) (total_events: nat) (skipped: nat) (pull_message: string)

definition pull_ok :: "pull_result \<Rightarrow> bool" where
  "pull_ok r = (case r of PullError _ \<Rightarrow> False | PullOk _ _ _ _ _ \<Rightarrow> True)"

definition pull_message_of :: "nat \<Rightarrow> nat \<Rightarrow> nat \<Rightarrow> nat \<Rightarrow> string" where
  "pull_message_of n_total n_imported n_updated n_skipped =
     ''Found '' @ str_nat n_total @ '' events. Imported '' @ str_nat n_imported @
     '' new, updated '' @ str_nat n_updated @ '' existing'' @
     (if n_skipped > 0 then '', skipped '' @ str_nat n_skipped @ '' non-pomodoro events'' else [])"

definition sync_from_calendar ::
  "(ical_time \<Rightarrow> string \<Rightarrow> int) \<Rightarrow> int \<Rightarrow> engine \<Rightarrow> pull_result \<times> engine" where
  "sync_from_calendar h now st =
     (case ensure_connected st of
        (Some error, st1) \<Rightarrow> (PullError error, st1)
      | (None, st1) \<Rightarrow>
          (case search_range (cal st1) (now - year_seconds) (now + year_seconds) of
             Inl e \<Rightarrow> (PullError e, st1)
           | Inr events_list \<Rightarrow>
               (let pl = foldl (pull_event h now)
                           \<lparr>pl_db = db st1, pl_imported = 0, pl_updated = 0, pl_skipped = 0\<rparr>
                           events_list
                in (PullOk (pl_imported pl) (pl_updated pl) (length events_list) (pl_skipped pl)
                      (pull_message_of (length events_list) (pl_imported pl) (pl_updated pl)
                         (pl_skipped pl)),
                    st1\<lparr>db := pl_db pl\<rparr>))))"

subsection \<open>Both directions: \<open>sync\<close>\<close>

record sync_result =
  success :: bool
  to_calendar :: push_result
  from_calendar :: pull_result

definition sync ::
  "(ical_time \<Rightarrow> string \<Rightarrow> int) \<Rightarrow> int \<Rightarrow> engine \<Rightarrow> sync_result \<times> engine" where
  "sync h now st =
     (let (result_to, st1) = sync_to_calendar now st;
          (result_from, st2) = sync_from_calendar h now st1
      in (\<lparr>success = push_ok result_to \<and> pull_ok result_from,
           to_calendar = result_to, from_calendar = result_from\<rparr>, st2))"

section \<open>Notions used in the statements\<close>

text \<open>
  The UID under which pull files an event that starts at \<open>t\<close>: the event's own, or the
  one made up for an event that has none.
\<close>

definition effective_uid :: "(ical_time \<Rightarrow> string \<Rightarrow> int) \<Rightarrow> event \<Rightarrow> ical_time \<Rightarrow> string" where
  "effective_uid h ev t =
     (if ev_uid ev = [] then manual_uid h t (derive_task_name (ev_summary ev)) else ev_uid ev)"

text \<open>The event that push writes for a session under a given UID.\<close>

definition pushed_event :: "session \<Rightarrow> string \<Rightarrow> event" where
  "pushed_event s u =
     \<lparr>ev_uid = u, ev_summary = session_summary s, ev_description = session_description s,
      ev_dtstart = Some (DateTime (start_time s)), ev_dtend = Some (DateTime (session_end s)),
      ev_url = url_for u\<rparr>"

text \<open>
  Servers and a hash to run the engine on: a server on which every operation succeeds and
  whose time-range filter looks at the start of an event, the same server refusing every
  save with a precondition conflict, and a hash that is constant.
\<close>

definition reliable_server :: "event list \<Rightarrow> calendar" where
  "reliable_server es =
     \<lparr>cal_events = es,
      in_range = (\<lambda>lo hi e. case ev_dtstart e of
                                None \<Rightarrow> False
                              | Some w \<Rightarrow> lo \<le> instant w \<and> instant w \<le> hi),
      search_uid_error = (\<lambda>u. None), search_range_error = None, save_error = (\<lambda>url. None),
      delete_error = (\<lambda>url. None), direct_delete_error = (\<lambda>url. None),
      add_error = (\<lambda>u. None)\<rparr>"

definition conflicting_server :: "event list \<Rightarrow> calendar" where
  "conflicting_server es =
     (reliable_server es)\<lparr>save_error := (\<lambda>url. Some ''412 Precondition Failed'')\<rparr>"

definition constant_hash :: "ical_time \<Rightarrow> string \<Rightarrow> int" where
  "constant_hash t label = 0"

text \<open>Sessions, events and stores to run the engine on.\<close>

definition reading_session :: session where
  "reading_session =
     \<lparr>sid = 1, task_name = ''reading'', duration_seconds = 1500, start_time = 1000,
      end_time = Some 2500, status = ''completed'', completed_seconds = 1500\<rparr>"

definition cancelled_session :: session where
  "cancelled_session =
     \<lparr>sid = 1, task_name = ''draft'', duration_seconds = 1500, start_time = 1000,
      end_time = None, status = ''cancelled'', completed_seconds = 300\<rparr>"

definition deep_work_event :: event where
  "deep_work_event =
     \<lparr>ev_uid = ''manual-1'', ev_summary = tomato @ '' deep-work'', ev_description = [],
      ev_dtstart = Some (DateTime 5000), ev_dtend = Some (DateTime 6500),
      ev_url = ''manual-1.ics''\<rparr>"

definition store_of :: "session list \<Rightarrow> sync_mapping list \<Rightarrow> database" where
  "store_of ss ms = \<lparr>sessions = ss, mappings = ms, next_id = 1 + foldr max (map sid ss) 0\<rparr>"

definition link :: "int \<Rightarrow> string \<Rightarrow> sync_mapping" where
  "link i u = \<lparr>session_id = i, calendar_uid = u, calendar_url = None, last_synced = 0\<rparr>"

definition pull_start :: "database \<Rightarrow> pull_state" where
  "pull_start d = \<lparr>pl_db = d, pl_imported = 0, pl_updated = 0, pl_skipped = 0\<rparr>"

definition push_start :: "database \<Rightarrow> calendar \<Rightarrow> push_state" where
  "push_start d c = \<lparr>ps_db = d, ps_cal = c, ps_synced = 0, ps_updated = 0, ps_deleted = 0\<rparr>"

definition engine_of :: "database \<Rightarrow> calendar \<Rightarrow> engine" where
  "engine_of d c =
     \<lparr>config_url = Some ''https://dav.example'', connected = True, connect_error = None,
      db = d, cal = c\<rparr>"

definition dentist_event :: event where
  "dentist_event =
     \<lparr>ev_uid = ''dentist-1'', ev_summary = ''Dentist'', ev_description = [],
      ev_dtstart = Some (DateTime 5000), ev_dtend = Some (DateTime 6500),
      ev_url = ''dentist-1.ics''\<rparr>"

text \<open>An all-day event without an end, on 2024-01-01: day 19723 from 1970-01-01.\<close>

definition all_day_event :: event where
  "all_day_event =
     \<lparr>ev_uid = ''manual-2'', ev_summary = tomato @ '' deep-work'', ev_description = [],
      ev_dtstart = Some (Date 19723), ev_dtend = None, ev_url = ''manual-2.ics''\<rparr>"




text \<open>The server's behaviour without its events: what no operation of the engine changes.\<close>

definition behaviour :: "calendar \<Rightarrow> calendar" where
  "behaviour c = c\<lparr>cal_events := []\<rparr>"

text \<open>The engine after a session was deleted from the store and a push was run.\<close>

definition push_after_delete :: "int \<Rightarrow> engine \<Rightarrow> int \<Rightarrow> engine" where
  "push_after_delete now st i = snd (sync_to_calendar now (st\<lparr>db := delete_session (db st) i\<rparr>))"

text \<open>A server that differs from another only by events that were deleted.\<close>

definition shrunk :: "calendar \<Rightarrow> calendar \<Rightarrow> bool" where
  "shrunk c c' = (behaviour c' = behaviour c \<and> (\<exists>keep. cal_events c' = filter keep (cal_events c)))"

text \<open>No event on the server carries the UID.\<close>

definition absent :: "string \<Rightarrow> calendar \<Rightarrow> bool" where
  "absent u c = (\<forall>e \<in> set (cal_events c). ev_uid e \<noteq> u)"

text \<open>Store, server and counters as the two sweeps and the loop of a push leave them.\<close>

definition push_phases :: "int \<Rightarrow> engine \<Rightarrow> push_state" where
  "push_phases now st =
     (let ss = get_all_sessions (db st);
          all_mappings = get_sync_mapping (db st) None None;
          session_ids = map sid ss;
          ps0 = \<lparr>ps_db = db st, ps_cal = cal st, ps_synced = 0, ps_updated = 0, ps_deleted = 0\<rparr>;
          ps1 = foldl (sweep_mapping session_ids) ps0 all_mappings;
          ps2 = fst (sweep_calendar now session_ids (expected_uids_of ss all_mappings) ps1)
      in snd (push_sessions now ps2 ss))"

definition second_session :: session where
  "second_session =
     \<lparr>sid = 2, task_name = ''writing'', duration_seconds = 1500, start_time = 3000,
      end_time = Some 4500, status = ''completed'', completed_seconds = 1500\<rparr>"

text \<open>
  A calendar is at hand, or a URL is configured and connecting succeeds: the engines whose
  push gets past its guard.
\<close>

definition can_connect :: "engine \<Rightarrow> bool" where
  "can_connect st = (connected st \<or> given_str (config_url st) \<and> connect_error st = None)"

text \<open>An engine without a calendar whose attempts to connect are refused.\<close>

definition offline_engine :: "database \<Rightarrow> calendar \<Rightarrow> engine" where
  "offline_engine d c =
     \<lparr>config_url = Some ''https://dav.example'', connected = False,
      connect_error = Some ''Connection refused'', db = d, cal = c\<rparr>"

text \<open>
  An engine that holds a calendar from an earlier connection while the server has become
  unreachable: every call to the server raises.
\<close>

definition unreachable_server :: "event list \<Rightarrow> calendar" where
  "unreachable_server es =
     \<lparr>cal_events = es, in_range = (\<lambda>lo hi e. True),
      search_uid_error = (\<lambda>u. Some ''Connection refused''),
      search_range_error = Some ''Connection refused'',
      save_error = (\<lambda>url. Some ''Connection refused''),
      delete_error = (\<lambda>url. Some ''Connection refused''),
      direct_delete_error = (\<lambda>url. Some ''Connection refused''),
      add_error = (\<lambda>u. Some ''Connection refused'')\<rparr>"

definition stale_engine :: "database \<Rightarrow> event list \<Rightarrow> engine" where
  "stale_engine d es =
     \<lparr>config_url = Some ''https://dav.example'', connected = True,
      connect_error = Some ''Connection refused'', db = d, cal = unreachable_server es\<rparr>"

text \<open>A server that refuses every delete, by either route.\<close>

definition stubborn_server :: "event list \<Rightarrow> calendar" where
  "stubborn_server es =
     (reliable_server es)\<lparr>delete_error := (\<lambda>url. Some ''500 Server Error''),
                           direct_delete_error := (\<lambda>url. Some ''500 Server Error'')\<rparr>"

text \<open>
  Store and server in step: the searches and saves of the server succeed; every session has
  a non-zero id and a mapping; every mapping has a UID, a session and an event of that UID;
  the events sit at different URLs; every event of a mapped UID has a start and an end that
  are date-times, as push writes them; and every event that push or pull would recognise as
  the application's carries a mapped UID.
\<close>

definition never_fails :: "calendar \<Rightarrow> bool" where
  "never_fails c =
     (search_range_error c = None \<and> (\<forall>u. search_uid_error c u = None) \<and>
      (\<forall>url. save_error c url = None))"

definition in_step :: "database \<Rightarrow> calendar \<Rightarrow> bool" where
  "in_step d c =
     (never_fails c \<and>
      (\<forall>s \<in> set (sessions d). sid s \<noteq> 0 \<and> sid s \<in> session_id ` set (mappings d)) \<and>
      (\<forall>m \<in> set (mappings d).
         calendar_uid m \<noteq> [] \<and> session_id m \<in> sid ` set (sessions d) \<and>
         calendar_uid m \<in> ev_uid ` set (cal_events c)) \<and>
      distinct (map ev_url (cal_events c)) \<and>
      (\<forall>e \<in> set (cal_events c).
         (ev_uid e \<in> calendar_uid ` set (mappings d) \<longrightarrow>
            (\<exists>a b. ev_dtstart e = Some (DateTime a) \<and> ev_dtend e = Some (DateTime b))) \<and>
         (is_pomodoro_uid (ev_uid e) \<or> has_marker (ev_summary e) \<longrightarrow>
            ev_uid e \<in> calendar_uid ` set (mappings d))))"

text \<open>
  An event that push and pull take for the application's, and the events that the server's
  range search returns at a given time.
\<close>

definition recognised :: "event \<Rightarrow> bool" where
  "recognised e = (is_pomodoro_uid (ev_uid e) \<or> has_marker (ev_summary e))"

definition window :: "int \<Rightarrow> calendar \<Rightarrow> event list" where
  "window now c = filter (in_range c (now - year_seconds) (now + year_seconds)) (cal_events c)"

text \<open>The engine as a sync leaves it.\<close>

definition after_sync :: "(ical_time \<Rightarrow> string \<Rightarrow> int) \<Rightarrow> int \<Rightarrow> engine \<Rightarrow> engine" where
  "after_sync h now st = snd (sync h now st)"

definition after_two ::
  "(ical_time \<Rightarrow> string \<Rightarrow> int) \<Rightarrow> int \<Rightarrow> int \<Rightarrow> engine \<Rightarrow> engine" where
  "after_two h now now' st = after_sync h now' (after_sync h now st)"

text \<open>
  A store in which session 2 is mapped to the UID that push derives for session 1, which has
  no mapping: session 2 was imported by a pull from an event of that UID. Then the engine
  as one sync and as two syncs at time 7 leave it when the server starts empty.
\<close>

definition crossed_store :: database where
  "crossed_store =
     store_of [reading_session, second_session] [link 2 ''pomodoro-1@pomodoro-timer'']"

definition crossed_once :: engine where
  "crossed_once =
     engine_of
       \<lparr>sessions = [reading_session, second_session],
        mappings = [\<lparr>session_id = 1, calendar_uid = ''pomodoro-1@pomodoro-timer'',
                     calendar_url = None, last_synced = 7\<rparr>],
        next_id = 3\<rparr>
       (reliable_server [pushed_event reading_session ''pomodoro-1@pomodoro-timer''])"

definition crossed_twice :: engine where
  "crossed_twice =
     engine_of
       \<lparr>sessions = [reading_session, second_session],
        mappings = [\<lparr>session_id = 1, calendar_uid = ''pomodoro-1@pomodoro-timer'',
                     calendar_url = None, last_synced = 7\<rparr>,
                    \<lparr>session_id = 2, calendar_uid = ''pomodoro-2@pomodoro-timer'',
                     calendar_url = None, last_synced = 7\<rparr>],
        next_id = 3\<rparr>
       (reliable_server [pushed_event reading_session ''pomodoro-1@pomodoro-timer'',
                         pushed_event second_session ''pomodoro-2@pomodoro-timer''])"

text \<open>The store after the first push of the one session \<open>reading_session\<close> at time 7.\<close>

definition reading_synced :: engine where
  "reading_synced =
     engine_of
       (store_of [reading_session]
          [\<lparr>session_id = 1, calendar_uid = ''pomodoro-1@pomodoro-timer'', calendar_url = None,
            last_synced = 7\<rparr>])
       (reliable_server [pushed_event reading_session ''pomodoro-1@pomodoro-timer''])"

section \<open>The mapping table\<close>

lemma distinct_map_filter_key: "distinct (map f xs) \<Longrightarrow> distinct (map f (filter P xs))"
  by (induction xs) auto

lemma set_rows_unique:
  assumes "mapping_unique ms"
  shows "mapping_unique (set_sync_mapping_rows ms now i u url)"
proof -
  let ?keep = "filter (\<lambda>m. session_id m \<noteq> i \<and> calendar_uid m \<noteq> u) ms"
  have "distinct (map session_id ?keep)" "distinct (map calendar_uid ?keep)"
    using assms by (simp_all add: mapping_unique_def distinct_map_filter_key)
  moreover have "i \<notin> set (map session_id ?keep)" "u \<notin> set (map calendar_uid ?keep)"
    by auto
  ultimately show ?thesis
    by (simp add: mapping_unique_def set_sync_mapping_rows_def)
qed

lemma delete_rows_unique:
  assumes "mapping_unique ms"
  shows "mapping_unique (delete_sync_mapping_rows ms i u)"
  using assms by (simp add: mapping_unique_def delete_sync_mapping_rows_def distinct_map_filter_key)

text \<open>
  Claim C9. In every reachable state of the mapping table each session id occurs in at most
  one row and each calendar UID occurs in at most one row, and an upsert and a delete applied
  to such a table give such a table again.
\<close>

theorem mapping_uniqueness_invariant:
  "(reachable_mappings ms \<longrightarrow> mapping_unique ms) \<and>
   (mapping_unique ms \<longrightarrow>
      mapping_unique (set_sync_mapping_rows ms now i u url) \<and>
      mapping_unique (delete_sync_mapping_rows ms j v))"
proof (intro conjI impI)
  assume "reachable_mappings ms"
  then show "mapping_unique ms"
  proof (induction rule: reachable_mappings.induct)
    case reach_init
    show ?case by (simp add: init_db_def mapping_unique_def)
  next
    case (reach_set ms now i u url)
    then show ?case by (simp add: set_rows_unique)
  next
    case (reach_delete ms i u)
    then show ?case by (simp add: delete_rows_unique)
  qed
next
  assume "mapping_unique ms"
  then show "mapping_unique (set_sync_mapping_rows ms now i u url)" by (rule set_rows_unique)
next
  assume "mapping_unique ms"
  then show "mapping_unique (delete_sync_mapping_rows ms j v)" by (rule delete_rows_unique)
qed

theorem mapping_uniqueness_invariant_witness:
  "reachable_mappings (set_sync_mapping_rows (mappings init_db) 0 1 ''a'' None) \<and>
   mapping_unique (set_sync_mapping_rows (mappings init_db) 0 1 ''a'' None) \<and>
   mapping_unique
     (set_sync_mapping_rows (set_sync_mapping_rows (mappings init_db) 0 1 ''a'' None) 5 2 ''a'' None) \<and>
   set_sync_mapping_rows (set_sync_mapping_rows (mappings init_db) 0 1 ''a'' None) 5 2 ''a'' None =
     [\<lparr>session_id = 2, calendar_uid = ''a'', calendar_url = None, last_synced = 5\<rparr>] \<and>
   mapping_unique
     (delete_sync_mapping_rows (set_sync_mapping_rows (mappings init_db) 0 1 ''a'' None)
        None (Some ''a''))"
proof -
  let ?ms = "set_sync_mapping_rows (mappings init_db) 0 1 ''a'' None"
  have r: "reachable_mappings ?ms"
    by (rule reach_set) (rule reach_init)
  have u: "mapping_unique ?ms"
    using mapping_uniqueness_invariant [of ?ms] r by blast
  have "mapping_unique (set_sync_mapping_rows ?ms 5 2 ''a'' None)"
       "mapping_unique (delete_sync_mapping_rows ?ms None (Some ''a''))"
    using mapping_uniqueness_invariant [of ?ms 5 2 "''a''" None None "Some ''a''"] u by blast+
  moreover have "set_sync_mapping_rows ?ms 5 2 ''a'' None =
      [\<lparr>session_id = 2, calendar_uid = ''a'', calendar_url = None, last_synced = 5\<rparr>]"
    by (simp add: set_sync_mapping_rows_def init_db_def)
  ultimately show ?thesis using r u by blast
qed

section \<open>Configuration and connectivity\<close>

lemma ensure_connected_no_url:
  "\<not> connected st \<Longrightarrow> \<not> given_str (config_url st) \<Longrightarrow>
   ensure_connected st = (Some ''No CalDAV URL configured'', st)"
  by (simp add: ensure_connected_def connect_def given_str_def)

lemma ensure_connected_unreachable:
  "\<not> connected st \<Longrightarrow> given_str (config_url st) \<Longrightarrow> connect_error st = Some e \<Longrightarrow>
   ensure_connected st = (Some (if e = [] then ''Not connected to CalDAV server'' else e), st)"
  by (simp add: ensure_connected_def connect_def given_str_def)

text \<open>
  Claim C4, as the spec words it: without a configured URL, sync is a success with an
  explanatory message. It is false of the code: the result of \<open>sync\<close> on an engine without a
  URL has \<open>success = False\<close>.
\<close>

theorem sync_unconfigured_counterexample:
  "\<not> success (fst (sync constant_hash 0
        \<lparr>config_url = None, connected = False, connect_error = None, db = init_db,
         cal = reliable_server []\<rparr>))"
  by (simp add: sync_def sync_to_calendar_def sync_from_calendar_def ensure_connected_no_url
      given_str_def push_ok_def pull_ok_def)

text \<open>
  Claim C4, amended: without a configured URL (and with no calendar at hand), sync changes
  neither the local store nor the server and returns a failure: \<open>success\<close> is false and both
  sub-results carry the explanatory error \<open>No CalDAV URL configured\<close>.
\<close>

theorem sync_unconfigured_fails:
  assumes "\<not> given_str (config_url st)" and "\<not> connected st"
  shows "sync h now st =
           (\<lparr>success = False, to_calendar = PushError ''No CalDAV URL configured'',
             from_calendar = PullError ''No CalDAV URL configured''\<rparr>, st)"
  using assms
  by (simp add: sync_def sync_to_calendar_def sync_from_calendar_def ensure_connected_no_url
      push_ok_def pull_ok_def)

theorem sync_unconfigured_fails_witness:
  "\<not> given_str (Some []) \<and>
   sync constant_hash 7
     \<lparr>config_url = Some [], connected = False, connect_error = None, db = init_db,
      cal = reliable_server []\<rparr> =
     (\<lparr>success = False, to_calendar = PushError ''No CalDAV URL configured'',
       from_calendar = PullError ''No CalDAV URL configured''\<rparr>,
      \<lparr>config_url = Some [], connected = False, connect_error = None, db = init_db,
       cal = reliable_server []\<rparr>)"
  using sync_unconfigured_fails [of "\<lparr>config_url = Some [], connected = False,
      connect_error = None, db = init_db, cal = reliable_server []\<rparr>" constant_hash 7]
  by (simp add: given_str_def)

text \<open>
  Claim C5, as the spec words it: when the server cannot be reached, sync fails fast and
  neither push nor pull is attempted. It is false of the code for an engine that holds a
  calendar from an earlier connection: the guard of both directions connects only when no
  calendar is held, so push runs against the server that has become unreachable, removes the
  mapping row of a deleted session on its way and reports success; only pull returns the
  error.
\<close>

theorem sync_unreachable_counterexample:
  "sync constant_hash 7
     (stale_engine (store_of [] [link 1 ''pomodoro-1@pomodoro-timer''])
        [pushed_event reading_session ''pomodoro-1@pomodoro-timer'']) =
     (\<lparr>success = False,
       to_calendar = PushOk 0 0 0
         ''Synced 0 new, updated 0 existing (checked 0 calendar events for deletion)'',
       from_calendar = PullError ''Connection refused''\<rparr>,
      stale_engine (store_of [] []) [pushed_event reading_session ''pomodoro-1@pomodoro-timer''])"
proof -
  let ?u = "''pomodoro-1@pomodoro-timer''"
  let ?es = "[pushed_event reading_session ?u]"
  have push: "sync_to_calendar 7 (stale_engine (store_of [] [link 1 ?u]) ?es) =
      (PushOk 0 0 0 ''Synced 0 new, updated 0 existing (checked 0 calendar events for deletion)'',
       stale_engine (store_of [] []) ?es)"
    by (simp add: sync_to_calendar_def ensure_connected_def stale_engine_def Let_def
        get_all_sessions_def store_of_def get_sync_mapping_def given_int_def given_str_def
        link_def sweep_mapping_def search_uid_def unreachable_server_def delete_sync_mapping_def
        delete_sync_mapping_rows_def sweep_calendar_def search_range_def expected_uids_of_def
        push_message_of_def digit_char_def)
  have pull: "sync_from_calendar constant_hash 7 (stale_engine (store_of [] []) ?es) =
      (PullError ''Connection refused'', stale_engine (store_of [] []) ?es)"
    by (simp add: sync_from_calendar_def ensure_connected_def stale_engine_def search_range_def
        unreachable_server_def)
  show ?thesis
    unfolding sync_def push Let_def prod.case pull
    by (simp add: push_ok_def pull_ok_def)
qed

text \<open>
  Claim C5, amended. When no calendar is held, a URL is configured and the server cannot be
  reached or refuses the credentials as the engine connects, \<open>sync\<close> fails, both sub-results
  carry the connection error, and neither the local store nor the server is touched: the
  engine is returned as it was.
\<close>

theorem sync_unreachable_fails:
  assumes "given_str (config_url st)" and "\<not> connected st" and "connect_error st = Some e"
  shows "sync h now st =
           (\<lparr>success = False,
             to_calendar = PushError (if e = [] then ''Not connected to CalDAV server'' else e),
             from_calendar = PullError (if e = [] then ''Not connected to CalDAV server'' else e)\<rparr>,
            st)"
  using assms
  by (simp add: sync_def sync_to_calendar_def sync_from_calendar_def ensure_connected_unreachable
      push_ok_def pull_ok_def)

theorem sync_unreachable_fails_witness:
  "given_str (Some ''https://dav.example'') \<and>
   sync constant_hash 7
     \<lparr>config_url = Some ''https://dav.example'', connected = False,
      connect_error = Some ''Unauthorized'', db = init_db, cal = reliable_server []\<rparr> =
     (\<lparr>success = False, to_calendar = PushError ''Unauthorized'',
       from_calendar = PullError ''Unauthorized''\<rparr>,
      \<lparr>config_url = Some ''https://dav.example'', connected = False,
       connect_error = Some ''Unauthorized'', db = init_db, cal = reliable_server []\<rparr>)"
  using sync_unreachable_fails [of "\<lparr>config_url = Some ''https://dav.example'',
      connected = False, connect_error = Some ''Unauthorized'', db = init_db,
      cal = reliable_server []\<rparr>" "''Unauthorized''" constant_hash 7]
  by (simp add: given_str_def)

section \<open>Pull, one event\<close>

lemma is_pomodoro_uid_nonempty: "is_pomodoro_uid u \<Longrightarrow> u \<noteq> []"
  by (auto simp: is_pomodoro_uid_def startswith_def)

lemma pull_event_recognised:
  assumes "is_pomodoro_uid (ev_uid ev) \<or> has_marker (ev_summary ev)"
    and "ev_dtstart ev = Some w"
  shows "pull_event h now pl ev = import_event now pl ev (effective_uid h ev w)"
  using assms is_pomodoro_uid_nonempty [of "ev_uid ev"]
  by (auto simp: pull_event_def has_marker_def effective_uid_def derive_task_name_def Let_def)

lemma import_event_timed:
  assumes "ev_dtstart ev = Some w" and "seconds_between (event_end ev w) w = Inr dur"
  shows "import_event now pl ev uid =
           store_event now pl ev uid (derive_task_name (ev_summary ev)) (instant w)
             (instant (event_end ev w)) dur"
  using assms by (simp add: import_event_def Let_def)

lemma import_event_mixed:
  assumes "ev_dtstart ev = Some w" and "seconds_between (event_end ev w) w = Inl e"
  shows "import_event now pl ev uid = pl\<lparr>pl_skipped := pl_skipped pl + 1\<rparr>"
  using assms by (simp add: import_event_def Let_def)

lemmas strip_simps = strip_def lstrip.simps rstrip.simps whitespace_def startswith_def endswith_def

lemma deep_work_marked: "has_marker (ev_summary deep_work_event)"
  by (simp add: deep_work_event_def has_marker_def tomato_def startswith_def)

lemma deep_work_stripped: "strip (remove_all tomato (ev_summary deep_work_event)) = ''deep-work''"
  by (simp add: deep_work_event_def tomato_def strip_simps)

lemma deep_work_label: "derive_task_name (ev_summary deep_work_event) = ''deep-work''"
  by (simp add: derive_task_name_def deep_work_stripped)

lemma deep_work_uid: "effective_uid constant_hash deep_work_event w = ''manual-1''"
  by (simp add: effective_uid_def deep_work_event_def)

lemma deep_work_times:
  "ev_dtstart deep_work_event = Some (DateTime 5000)"
  "event_end deep_work_event (DateTime 5000) = DateTime 6500"
  "seconds_between (event_end deep_work_event (DateTime 5000)) (DateTime 5000) = Inr 1500"
  by (simp_all add: deep_work_event_def event_end_def seconds_between_def)

text \<open>
  Claim C10. When pull meets an event whose UID is mapped to a session that exists, the
  status and the completed seconds of every session are as before, no session is added or
  removed and the mapping table is untouched. When the event's times are of one kind, so that
  pull gets as far as the update, the session receives the task name, the duration, the start
  and the end derived from the event and nothing else, and the event counts as updated.
\<close>

theorem pull_update_frame:
  assumes ours: "is_pomodoro_uid (ev_uid ev) \<or> has_marker (ev_summary ev)"
    and start: "ev_dtstart ev = Some w"
    and mapped: "get_sync_mapping (pl_db pl) None (Some (effective_uid h ev w)) = m # ms"
    and live: "session_exists (pl_db pl) (session_id m)"
  shows "(\<forall>dur. seconds_between (event_end ev w) w = Inr dur \<longrightarrow>
            sessions (pl_db (pull_event h now pl ev)) =
              map (\<lambda>s. if sid s = session_id m
                        then s\<lparr>task_name := derive_task_name (ev_summary ev),
                               duration_seconds := dur,
                               start_time := instant w,
                               end_time := Some (instant (event_end ev w))\<rparr>
                        else s) (sessions (pl_db pl)) \<and>
            pl_updated (pull_event h now pl ev) = pl_updated pl + 1) \<and>
         map status (sessions (pl_db (pull_event h now pl ev))) =
           map status (sessions (pl_db pl)) \<and>
         map completed_seconds (sessions (pl_db (pull_event h now pl ev))) =
           map completed_seconds (sessions (pl_db pl)) \<and>
         map sid (sessions (pl_db (pull_event h now pl ev))) = map sid (sessions (pl_db pl)) \<and>
         mappings (pl_db (pull_event h now pl ev)) = mappings (pl_db pl)"
proof (cases "seconds_between (event_end ev w) w")
  case (Inl e)
  have "pull_event h now pl ev = pl\<lparr>pl_skipped := pl_skipped pl + 1\<rparr>"
    unfolding pull_event_recognised [OF ours start] using start Inl by (rule import_event_mixed)
  then show ?thesis
    using Inl by simp
next
  case (Inr d)
  have eq: "pull_event h now pl ev =
      pl\<lparr>pl_db := update_session (pl_db pl) (session_id m)
                     (Some (derive_task_name (ev_summary ev))) (Some d) (Some (instant w))
                     (Some (instant (event_end ev w))) None None,
         pl_updated := pl_updated pl + 1\<rparr>"
    unfolding pull_event_recognised [OF ours start] import_event_timed [OF start Inr]
    using mapped live by (simp add: store_event_def)
  show ?thesis
    unfolding eq using Inr by (simp add: update_session_def apply_updates_def o_def)
qed

theorem pull_update_frame_witness:
  "has_marker (ev_summary deep_work_event) \<and>
   ev_dtstart deep_work_event = Some (DateTime 5000) \<and>
   get_sync_mapping (store_of [cancelled_session] [link 1 ''manual-1'']) None
     (Some (effective_uid constant_hash deep_work_event (DateTime 5000))) =
     [link 1 ''manual-1''] \<and>
   session_exists (store_of [cancelled_session] [link 1 ''manual-1'']) 1 \<and>
   seconds_between (event_end deep_work_event (DateTime 5000)) (DateTime 5000) = Inr 1500 \<and>
   sessions (pl_db (pull_event constant_hash 7
       (pull_start (store_of [cancelled_session] [link 1 ''manual-1''])) deep_work_event)) =
     [\<lparr>sid = 1, task_name = ''deep-work'', duration_seconds = 1500, start_time = 5000,
       end_time = Some 6500, status = ''cancelled'', completed_seconds = 300\<rparr>] \<and>
   pl_updated (pull_event constant_hash 7
       (pull_start (store_of [cancelled_session] [link 1 ''manual-1''])) deep_work_event) = 1"
proof -
  let ?d = "store_of [cancelled_session] [link 1 ''manual-1'']"
  let ?w = "DateTime 5000"
  have m: "get_sync_mapping ?d None (Some (effective_uid constant_hash deep_work_event ?w)) =
      link 1 ''manual-1'' # []"
    by (simp add: deep_work_uid get_sync_mapping_def given_int_def given_str_def store_of_def
        link_def)
  have l: "session_exists (pl_db (pull_start ?d)) (session_id (link 1 ''manual-1''))"
    by (simp add: session_exists_def pull_start_def store_of_def link_def cancelled_session_def)
  have o: "is_pomodoro_uid (ev_uid deep_work_event) \<or> has_marker (ev_summary deep_work_event)"
    by (simp add: deep_work_marked)
  have m': "get_sync_mapping (pl_db (pull_start ?d)) None
      (Some (effective_uid constant_hash deep_work_event ?w)) = link 1 ''manual-1'' # []"
    using m by (simp add: pull_start_def)
  note frame = pull_update_frame [OF o deep_work_times(1) m' l, of 7]
  note vals = mp [OF spec [OF conjunct1 [OF frame], of 1500] deep_work_times(3)]
  have a: "sessions (pl_db (pull_event constant_hash 7 (pull_start ?d) deep_work_event)) =
     [\<lparr>sid = 1, task_name = ''deep-work'', duration_seconds = 1500, start_time = 5000,
       end_time = Some 6500, status = ''cancelled'', completed_seconds = 300\<rparr>]"
    unfolding conjunct1 [OF vals] deep_work_label deep_work_times(2)
    by (simp add: pull_start_def store_of_def link_def cancelled_session_def instant_def)
  have b: "pl_updated (pull_event constant_hash 7 (pull_start ?d) deep_work_event) = 1"
    unfolding conjunct2 [OF vals] by (simp add: pull_start_def)
  have l': "session_exists ?d 1"
    using l by (simp add: pull_start_def link_def)
  from deep_work_marked deep_work_times(1) m l' deep_work_times(3) a b show ?thesis
    by (intro conjI)
qed

text \<open>
  What pull makes of an event that it does not skip. An event that matches neither signal
  (UID pattern, marker in the title) is counted as skipped and changes nothing. An event that
  matches one, has a start and an end of the same kind, is mapped to nothing and fuzzily
  matches no session is imported: a session is added whose task name is the title with the
  marker removed and stripped (\<open>Imported Session\<close> when nothing is left), whose start is the
  event's, whose end is the event's or what adding 25 minutes to the start gives, whose
  duration and completed seconds are their difference and whose status is \<open>completed\<close>, and a
  mapping from the new session to the event's UID is stored.
\<close>

lemma pull_field_derivation:
  "(\<not> is_pomodoro_uid (ev_uid ev) \<and> \<not> has_marker (ev_summary ev) \<longrightarrow>
      pull_event h now pl ev = pl\<lparr>pl_skipped := pl_skipped pl + 1\<rparr>) \<and>
   ((is_pomodoro_uid (ev_uid ev) \<or> has_marker (ev_summary ev)) \<and> ev_dtstart ev = Some w \<and>
    seconds_between (event_end ev w) w = Inr dur \<and>
    get_sync_mapping (pl_db pl) None (Some (effective_uid h ev w)) = [] \<and>
    find_session_by_time_and_task (pl_db pl) (instant w) (derive_task_name (ev_summary ev)) 5 =
      None \<longrightarrow>
      pull_event h now pl ev =
        pl\<lparr>pl_db := set_sync_mapping
                       ((pl_db pl)\<lparr>sessions := sessions (pl_db pl) @
                           [\<lparr>sid = next_id (pl_db pl),
                             task_name = (if strip (remove_all tomato (ev_summary ev)) = []
                                          then ''Imported Session''
                                          else strip (remove_all tomato (ev_summary ev))),
                             duration_seconds = dur,
                             start_time = instant w,
                             end_time = Some (instant (event_end ev w)),
                             status = ''completed'',
                             completed_seconds = dur\<rparr>],
                         next_id := next_id (pl_db pl) + 1\<rparr>)
                       now (next_id (pl_db pl)) (effective_uid h ev w) (Some (ev_url ev)),
           pl_imported := pl_imported pl + 1\<rparr>)"
proof (intro conjI impI)
  assume "\<not> is_pomodoro_uid (ev_uid ev) \<and> \<not> has_marker (ev_summary ev)"
  then show "pull_event h now pl ev = pl\<lparr>pl_skipped := pl_skipped pl + 1\<rparr>"
    by (simp add: pull_event_def has_marker_def)
next
  assume a: "(is_pomodoro_uid (ev_uid ev) \<or> has_marker (ev_summary ev)) \<and>
    ev_dtstart ev = Some w \<and>
    seconds_between (event_end ev w) w = Inr dur \<and>
    get_sync_mapping (pl_db pl) None (Some (effective_uid h ev w)) = [] \<and>
    find_session_by_time_and_task (pl_db pl) (instant w) (derive_task_name (ev_summary ev)) 5 =
      None"
  then have "pull_event h now pl ev =
      store_event now pl ev (effective_uid h ev w) (derive_task_name (ev_summary ev)) (instant w)
        (instant (event_end ev w)) dur"
    by (simp add: pull_event_recognised import_event_timed)
  with a show "pull_event h now pl ev =
        pl\<lparr>pl_db := set_sync_mapping
                       ((pl_db pl)\<lparr>sessions := sessions (pl_db pl) @
                           [\<lparr>sid = next_id (pl_db pl),
                             task_name = (if strip (remove_all tomato (ev_summary ev)) = []
                                          then ''Imported Session''
                                          else strip (remove_all tomato (ev_summary ev))),
                             duration_seconds = dur,
                             start_time = instant w,
                             end_time = Some (instant (event_end ev w)),
                             status = ''completed'',
                             completed_seconds = dur\<rparr>],
                         next_id := next_id (pl_db pl) + 1\<rparr>)
                       now (next_id (pl_db pl)) (effective_uid h ev w) (Some (ev_url ev)),
           pl_imported := pl_imported pl + 1\<rparr>"
    by (simp add: store_event_def add_session_def Let_def derive_task_name_def)
qed

text \<open>The times that pull takes from an event whose start is a date-time.\<close>

lemma date_time_event_times:
  "event_end ev (DateTime t) =
     (case ev_dtend ev of Some e \<Rightarrow> e | None \<Rightarrow> DateTime (t + 1500))"
  "ev_dtend ev = None \<Longrightarrow> seconds_between (event_end ev (DateTime t)) (DateTime t) = Inr 1500"
  "ev_dtend ev = Some (DateTime e) \<Longrightarrow>
     seconds_between (event_end ev (DateTime t)) (DateTime t) = Inr (e - t)"
  by (simp_all add: event_end_def plus_minutes_def seconds_between_def split: option.splits)

text \<open>The spec's scenario: the event titled with the marker and \<open>deep-work\<close>, and an event
  that is not the application's.\<close>

lemma pull_deep_work:
  "pull_event constant_hash 7 (pull_start init_db) deep_work_event =
     \<lparr>pl_db = \<lparr>sessions =
                 [\<lparr>sid = 1, task_name = ''deep-work'', duration_seconds = 1500,
                   start_time = 5000, end_time = Some 6500, status = ''completed'',
                   completed_seconds = 1500\<rparr>],
               mappings =
                 [\<lparr>session_id = 1, calendar_uid = ''manual-1'',
                   calendar_url = Some ''manual-1.ics'', last_synced = 7\<rparr>],
               next_id = 2\<rparr>,
      pl_imported = 1, pl_updated = 0, pl_skipped = 0\<rparr> \<and>
   pull_event constant_hash 7 (pull_start init_db) dentist_event =
     (pull_start init_db)\<lparr>pl_skipped := 1\<rparr>"
proof -
  let ?w = "DateTime 5000"
  note both = pull_field_derivation [of deep_work_event constant_hash 7 "pull_start init_db" ?w 1500]
  note skip = pull_field_derivation [of dentist_event constant_hash 7 "pull_start init_db"]
  have p: "pl_db (pull_start init_db) = init_db"
    by (simp add: pull_start_def)
  have a: "get_sync_mapping init_db None
      (Some (effective_uid constant_hash deep_work_event ?w)) = []"
    by (simp add: get_sync_mapping_def init_db_def given_int_def)
  have b: "find_session_by_time_and_task init_db (instant ?w)
      (derive_task_name (ev_summary deep_work_event)) 5 = None"
    by (simp add: find_session_by_time_and_task_def init_db_def)
  have hyp: "(is_pomodoro_uid (ev_uid deep_work_event) \<or> has_marker (ev_summary deep_work_event)) \<and>
      ev_dtstart deep_work_event = Some ?w \<and>
      seconds_between (event_end deep_work_event ?w) ?w = Inr 1500 \<and>
      get_sync_mapping (pl_db (pull_start init_db)) None
        (Some (effective_uid constant_hash deep_work_event ?w)) = [] \<and>
      find_session_by_time_and_task (pl_db (pull_start init_db)) (instant ?w)
        (derive_task_name (ev_summary deep_work_event)) 5 = None"
    using a b deep_work_times deep_work_marked by (simp only: p) simp
  have c: "pull_event constant_hash 7 (pull_start init_db) deep_work_event =
     \<lparr>pl_db = \<lparr>sessions =
                 [\<lparr>sid = 1, task_name = ''deep-work'', duration_seconds = 1500,
                   start_time = 5000, end_time = Some 6500, status = ''completed'',
                   completed_seconds = 1500\<rparr>],
               mappings =
                 [\<lparr>session_id = 1, calendar_uid = ''manual-1'',
                   calendar_url = Some ''manual-1.ics'', last_synced = 7\<rparr>],
               next_id = 2\<rparr>,
      pl_imported = 1, pl_updated = 0, pl_skipped = 0\<rparr>"
    unfolding mp [OF conjunct2 [OF both] hyp] deep_work_stripped deep_work_uid deep_work_times(2)
    by (simp add: pull_start_def deep_work_event_def init_db_def set_sync_mapping_def
        set_sync_mapping_rows_def instant_def)
  have n: "\<not> is_pomodoro_uid (ev_uid dentist_event) \<and> \<not> has_marker (ev_summary dentist_event)"
    by (simp add: dentist_event_def is_pomodoro_uid_def has_marker_def tomato_def startswith_def
        lower_def lower_char_def)
  have d: "pull_event constant_hash 7 (pull_start init_db) dentist_event =
     (pull_start init_db)\<lparr>pl_skipped := 1\<rparr>"
    unfolding mp [OF conjunct1 [OF skip] n] by (simp add: pull_start_def)
  from c d show ?thesis
    by (intro conjI)
qed

text \<open>
  Claim C7 says that pull assumes a duration of 25 minutes when the event has no end. The
  code adds 25 minutes to the start, which leaves a start that is a date where it is: the
  all-day event without an end that is titled with the marker and \<open>deep-work\<close> and starts on
  2024-01-01 (day 19723) is imported as a session that ends when it starts and lasts 0
  seconds, not 1500.
\<close>

theorem pull_all_day_without_end:
  "ev_dtend all_day_event = None \<and>
   pull_event constant_hash 7 (pull_start init_db) all_day_event =
     \<lparr>pl_db = \<lparr>sessions =
                 [\<lparr>sid = 1, task_name = ''deep-work'', duration_seconds = 0,
                   start_time = 1704067200, end_time = Some 1704067200, status = ''completed'',
                   completed_seconds = 0\<rparr>],
               mappings =
                 [\<lparr>session_id = 1, calendar_uid = ''manual-2'',
                   calendar_url = Some ''manual-2.ics'', last_synced = 7\<rparr>],
               next_id = 2\<rparr>,
      pl_imported = 1, pl_updated = 0, pl_skipped = 0\<rparr>"
proof -
  let ?w = "Date 19723"
  have marked: "has_marker (ev_summary all_day_event)"
    by (simp add: all_day_event_def has_marker_def tomato_def startswith_def)
  have start: "ev_dtstart all_day_event = Some ?w"
    by (simp add: all_day_event_def)
  have no_end: "ev_dtend all_day_event = None"
    by (simp add: all_day_event_def)
  have stop: "event_end all_day_event ?w = ?w"
    by (simp add: event_end_def no_end plus_minutes_def)
  have dur: "seconds_between (event_end all_day_event ?w) ?w = Inr 0"
    by (simp add: stop seconds_between_def)
  have uid: "effective_uid constant_hash all_day_event ?w = ''manual-2''"
    by (simp add: effective_uid_def all_day_event_def)
  have label: "derive_task_name (ev_summary all_day_event) = ''deep-work''"
    by (simp add: derive_task_name_def all_day_event_def tomato_def strip_simps)
  have i: "pull_event constant_hash 7 (pull_start init_db) all_day_event =
      store_event 7 (pull_start init_db) all_day_event ''manual-2'' ''deep-work'' (instant ?w)
        (instant ?w) 0"
    using pull_event_recognised [of all_day_event ?w constant_hash 7 "pull_start init_db"]
      import_event_timed [OF start dur, of 7 "pull_start init_db" "''manual-2''"] marked start
    by (simp add: uid label stop)
  have "store_event 7 (pull_start init_db) all_day_event ''manual-2'' ''deep-work'' (instant ?w)
        (instant ?w) 0 =
     \<lparr>pl_db = \<lparr>sessions =
                 [\<lparr>sid = 1, task_name = ''deep-work'', duration_seconds = 0,
                   start_time = 1704067200, end_time = Some 1704067200, status = ''completed'',
                   completed_seconds = 0\<rparr>],
               mappings =
                 [\<lparr>session_id = 1, calendar_uid = ''manual-2'',
                   calendar_url = Some ''manual-2.ics'', last_synced = 7\<rparr>],
               next_id = 2\<rparr>,
      pl_imported = 1, pl_updated = 0, pl_skipped = 0\<rparr>"
    by (simp add: store_event_def pull_start_def init_db_def get_sync_mapping_def given_int_def
        given_str_def find_session_by_time_and_task_def add_session_def set_sync_mapping_def
        set_sync_mapping_rows_def instant_def all_day_event_def)
  with i no_end show ?thesis
    by simp
qed

section \<open>Push, one session\<close>

lemma reading_uid: "session_uid (sid reading_session) = ''pomodoro-1@pomodoro-timer''"
  by (simp add: session_uid_def reading_session_def str_int_def digit_char_def)

text \<open>
  Claim C6. A session without a row in the mapping table is pushed as a new event whose UID
  is built from the session id alone, \<open>pomodoro-<id>@pomodoro-timer\<close>; a mapping from the
  session to that UID is stored and the session is counted as synced, not as updated or
  deleted.
\<close>

theorem push_unmapped_session:
  assumes unmapped: "get_sync_mapping (ps_db ps) (Some (sid s)) None = []"
    and created: "add_error (ps_cal ps) (session_uid (sid s)) = None"
  shows "push_session now ps s =
           Inr (ps\<lparr>ps_cal := (ps_cal ps)\<lparr>cal_events :=
                      filter (\<lambda>x. ev_url x \<noteq> url_for (session_uid (sid s)))
                        (cal_events (ps_cal ps)) @
                      [\<lparr>ev_uid = ''pomodoro-'' @ str_int (sid s) @ ''@pomodoro-timer'',
                        ev_summary = session_summary s, ev_description = session_description s,
                        ev_dtstart = Some (DateTime (start_time s)),
                        ev_dtend = Some (DateTime (session_end s)),
                        ev_url = url_for (session_uid (sid s))\<rparr>]\<rparr>,
                   ps_db := set_sync_mapping (ps_db ps) now (sid s)
                              (''pomodoro-'' @ str_int (sid s) @ ''@pomodoro-timer'') None,
                   ps_synced := ps_synced ps + 1\<rparr>)"
  using assms by (simp add: push_session_def add_event_def session_uid_def)

theorem push_unmapped_session_witness:
  "get_sync_mapping (ps_db (push_start (store_of [reading_session] []) (reliable_server [])))
     (Some (sid reading_session)) None = [] \<and>
   add_error (ps_cal (push_start (store_of [reading_session] []) (reliable_server [])))
     (session_uid (sid reading_session)) = None \<and>
   push_session 7 (push_start (store_of [reading_session] []) (reliable_server []))
     reading_session =
     Inr \<lparr>ps_db = store_of [reading_session]
                    [\<lparr>session_id = 1, calendar_uid = ''pomodoro-1@pomodoro-timer'',
                      calendar_url = None, last_synced = 7\<rparr>],
          ps_cal = reliable_server [pushed_event reading_session ''pomodoro-1@pomodoro-timer''],
          ps_synced = 1, ps_updated = 0, ps_deleted = 0\<rparr> \<and>
   fst (sync_to_calendar 7 (engine_of (store_of [reading_session] []) (reliable_server []))) =
     PushOk 1 0 0 ''Synced 1 new, updated 0 existing''"
proof -
  let ?ps = "push_start (store_of [reading_session] []) (reliable_server [])"
  have a: "get_sync_mapping (ps_db ?ps) (Some (sid reading_session)) None = []"
    by (simp add: push_start_def store_of_def get_sync_mapping_def)
  have b: "add_error (ps_cal ?ps) (session_uid (sid reading_session)) = None"
    by (simp add: push_start_def reliable_server_def)
  have i: "''pomodoro-'' @ str_int (sid reading_session) @ ''@pomodoro-timer'' =
      ''pomodoro-1@pomodoro-timer''"
    using reading_uid by (simp add: session_uid_def)
  have c: "push_session 7 ?ps reading_session =
     Inr \<lparr>ps_db = store_of [reading_session]
                    [\<lparr>session_id = 1, calendar_uid = ''pomodoro-1@pomodoro-timer'',
                      calendar_url = None, last_synced = 7\<rparr>],
          ps_cal = reliable_server [pushed_event reading_session ''pomodoro-1@pomodoro-timer''],
          ps_synced = 1, ps_updated = 0, ps_deleted = 0\<rparr>"
    unfolding push_unmapped_session [OF a b] reading_uid i
    by (simp add: push_start_def store_of_def reliable_server_def pushed_event_def
        set_sync_mapping_def set_sync_mapping_rows_def) (simp add: reading_session_def)
  have d: "fst (sync_to_calendar 7
        (engine_of (store_of [reading_session] []) (reliable_server []))) =
     PushOk 1 0 0 ''Synced 1 new, updated 0 existing''"
  proof -
    have e: "ensure_connected (engine_of (store_of [reading_session] []) (reliable_server [])) =
        (None, engine_of (store_of [reading_session] []) (reliable_server []))"
      by (simp add: ensure_connected_def engine_of_def)
    have g: "get_all_sessions (store_of [reading_session] []) = [reading_session]"
      by (simp add: get_all_sessions_def store_of_def)
    have m: "get_sync_mapping (store_of [reading_session] []) None None = []"
      by (simp add: get_sync_mapping_def store_of_def given_int_def given_str_def)
    have w: "sweep_calendar 7 [sid reading_session]
        (expected_uids_of [reading_session] []) ?ps = (?ps, Some 0)"
      by (simp add: sweep_calendar_def search_range_def push_start_def reliable_server_def)
    have c': "push_session 7 ?ps reading_session =
        Inr (?ps\<lparr>ps_cal := reliable_server [pushed_event reading_session ''pomodoro-1@pomodoro-timer''],
                ps_db := store_of [reading_session]
                    [\<lparr>session_id = 1, calendar_uid = ''pomodoro-1@pomodoro-timer'',
                      calendar_url = None, last_synced = 7\<rparr>],
                ps_synced := 1\<rparr>)"
      unfolding c by (simp add: push_start_def)
    show ?thesis
      unfolding sync_to_calendar_def e
      by (simp add: Let_def g m w c' engine_of_def push_start_def [symmetric])
         (simp add: push_start_def push_message_of_def digit_char_def)
  qed
  show ?thesis
    using a b c d by simp
qed

text \<open>
  Claim C3. When the event of a mapped session is found on the server and saving the update
  fails with a precondition conflict (412), the step raises nothing, so the push goes on.
  The old event is deleted (a failure of the delete is ignored) and, if the creation goes
  through, an event with the session's content exists under the UID of the mapping and the
  session is counted as updated; the mapping table is left as it was.
\<close>

theorem push_conflict_recovery:
  assumes mapped: "get_sync_mapping (ps_db ps) (Some (sid s)) None = m # ms"
    and found: "search_uid (ps_cal ps) (calendar_uid m) = Inr (ev # evs)"
    and conflict: "save_error (ps_cal ps) (ev_url ev) = Some e" "is_412_error e"
  shows "(\<exists>ps'. push_session now ps s = Inr ps' \<and> ps_db ps' = ps_db ps) \<and>
         (add_error (ps_cal ps) (calendar_uid m) = None \<longrightarrow>
          push_session now ps s =
            Inr (ps\<lparr>ps_cal := (ps_cal ps)\<lparr>cal_events :=
                       filter (\<lambda>x. ev_url x \<noteq> url_for (calendar_uid m))
                         (if delete_error (ps_cal ps) (ev_url ev) = None
                          then filter (\<lambda>x. ev_url x \<noteq> ev_url ev) (cal_events (ps_cal ps))
                          else cal_events (ps_cal ps)) @
                       [pushed_event s (calendar_uid m)]\<rparr>,
                    ps_updated := ps_updated ps + 1\<rparr>))"
  using assms
  by (auto simp: push_session_def update_event_def event_save_def event_delete_def add_event_def
      pushed_event_def Let_def split: option.splits)

theorem push_conflict_recovery_witness:
  "get_sync_mapping
     (ps_db (push_start (store_of [reading_session] [link 1 ''pomodoro-1@pomodoro-timer''])
        (conflicting_server [pushed_event cancelled_session ''pomodoro-1@pomodoro-timer''])))
     (Some (sid reading_session)) None = [link 1 ''pomodoro-1@pomodoro-timer''] \<and>
   search_uid
     (ps_cal (push_start (store_of [reading_session] [link 1 ''pomodoro-1@pomodoro-timer''])
        (conflicting_server [pushed_event cancelled_session ''pomodoro-1@pomodoro-timer''])))
     ''pomodoro-1@pomodoro-timer'' =
     Inr [pushed_event cancelled_session ''pomodoro-1@pomodoro-timer''] \<and>
   is_412_error ''412 Precondition Failed'' \<and>
   push_session 7
     (push_start (store_of [reading_session] [link 1 ''pomodoro-1@pomodoro-timer''])
        (conflicting_server [pushed_event cancelled_session ''pomodoro-1@pomodoro-timer'']))
     reading_session =
     Inr \<lparr>ps_db = store_of [reading_session] [link 1 ''pomodoro-1@pomodoro-timer''],
          ps_cal = conflicting_server [pushed_event reading_session ''pomodoro-1@pomodoro-timer''],
          ps_synced = 0, ps_updated = 1, ps_deleted = 0\<rparr>"
proof -
  let ?u = "''pomodoro-1@pomodoro-timer''"
  let ?old = "pushed_event cancelled_session ?u"
  let ?ps = "push_start (store_of [reading_session] [link 1 ?u]) (conflicting_server [?old])"
  have a: "get_sync_mapping (ps_db ?ps) (Some (sid reading_session)) None = link 1 ?u # []"
    by (simp add: push_start_def store_of_def get_sync_mapping_def given_int_def link_def
        reading_session_def)
  have b: "search_uid (ps_cal ?ps) (calendar_uid (link 1 ?u)) = Inr (?old # [])"
    by (simp add: push_start_def search_uid_def conflicting_server_def reliable_server_def
        link_def pushed_event_def)
  have c: "save_error (ps_cal ?ps) (ev_url ?old) = Some ''412 Precondition Failed''"
    by (simp add: push_start_def conflicting_server_def reliable_server_def)
  have d: "is_412_error ''412 Precondition Failed''"
    by (simp add: is_412_error_def startswith_def)
  have e: "add_error (ps_cal ?ps) (calendar_uid (link 1 ?u)) = None"
    by (simp add: push_start_def conflicting_server_def reliable_server_def)
  have f: "push_session 7 ?ps reading_session =
     Inr \<lparr>ps_db = store_of [reading_session] [link 1 ?u],
          ps_cal = conflicting_server [pushed_event reading_session ?u],
          ps_synced = 0, ps_updated = 1, ps_deleted = 0\<rparr>"
    unfolding mp [OF conjunct2 [OF push_conflict_recovery [OF a b c d, of 7]] e]
    by (simp add: push_start_def conflicting_server_def reliable_server_def link_def
        pushed_event_def)
  show ?thesis
    using a b d f by (simp add: link_def)
qed

section \<open>Pull after a lost mapping\<close>







lemma pushed_event_marked: "has_marker (ev_summary (pushed_event s u))"
  by (simp add: pushed_event_def session_summary_def has_marker_def tomato_def startswith_def)

lemma pushed_event_times:
  "ev_dtstart (pushed_event s u) = Some (DateTime (start_time s))"
  "event_end (pushed_event s u) w = DateTime (session_end s)"
  "seconds_between (event_end (pushed_event s u) w) (DateTime (start_time s)) =
     Inr (session_end s - start_time s)"
  by (simp_all add: pushed_event_def event_end_def seconds_between_def)

lemma pull_pushed_event:
  assumes "u \<noteq> []"
  shows "pull_event h now pl (pushed_event s u) =
           store_event now pl (pushed_event s u) u (derive_task_name (session_summary s))
             (start_time s) (session_end s) (session_end s - start_time s)"
proof -
  let ?ev = "pushed_event s u"
  let ?w = "DateTime (start_time s)"
  have eu: "effective_uid h ?ev ?w = u"
    using assms by (simp add: effective_uid_def pushed_event_def)
  have "pull_event h now pl ?ev = import_event now pl ?ev u"
    using pull_event_recognised [of ?ev ?w h now pl] pushed_event_marked [of s u]
      pushed_event_times(1) [of s u] eu by simp
  also have "\<dots> = store_event now pl ?ev u (derive_task_name (ev_summary ?ev)) (instant ?w)
      (instant (event_end ?ev ?w)) (session_end s - start_time s)"
    using pushed_event_times(1) pushed_event_times(3) by (rule import_event_timed)
  finally show ?thesis
    by (simp add: pushed_event_times instant_def) (simp add: pushed_event_def)
qed




section \<open>Push: what the sweeps and the loop do to the mapping table\<close>

lemma delete_rows_by_uid:
  "delete_sync_mapping_rows rows None (Some u) =
     (if u = [] then rows else filter (\<lambda>r. calendar_uid r \<noteq> u) rows)"
  by (simp add: delete_sync_mapping_rows_def given_int_def given_str_def)

lemma try_delete_db: "ps_db (try_delete ps ev) = ps_db ps"
  by (simp add: try_delete_def split: sum.splits)

lemma sweep_mapping_rows:
  "mappings (ps_db (sweep_mapping ids ps m)) =
     (if session_id m \<in> set ids \<or> calendar_uid m = [] then mappings (ps_db ps)
      else filter (\<lambda>r. calendar_uid r \<noteq> calendar_uid m) (mappings (ps_db ps)))"
  by (simp add: sweep_mapping_def delete_sync_mapping_def delete_rows_by_uid try_delete_db Let_def
      split: sum.splits list.splits)

lemma sweep_mappings_rows:
  "mappings (ps_db (foldl (sweep_mapping ids) ps ms)) =
     filter (\<lambda>r. \<forall>m \<in> set ms. session_id m \<in> set ids \<or> calendar_uid m = [] \<or>
                   calendar_uid r \<noteq> calendar_uid m)
       (mappings (ps_db ps))"
proof (induction ms arbitrary: ps)
  case Nil
  show ?case by simp
next
  case (Cons m ms)
  show ?case
    by (simp add: Cons.IH sweep_mapping_rows)
qed

lemma sweep_event_rows:
  "set (mappings (ps_db (sweep_event ids expected ps ev))) \<subseteq> set (mappings (ps_db ps))"
  by (auto simp: sweep_event_def delete_sync_mapping_def delete_rows_by_uid try_delete_db Let_def
      split: list.splits if_splits)

lemma sweep_events_rows:
  "set (mappings (ps_db (foldl (sweep_event ids expected) ps evs))) \<subseteq> set (mappings (ps_db ps))"
proof (induction evs arbitrary: ps)
  case Nil
  show ?case by simp
next
  case (Cons ev evs)
  show ?case
    using Cons.IH [of "sweep_event ids expected ps ev"] sweep_event_rows [of ids expected ps ev]
    by auto
qed

lemma sweep_calendar_rows:
  "set (mappings (ps_db (fst (sweep_calendar now ids expected ps)))) \<subseteq> set (mappings (ps_db ps))"
  using sweep_events_rows
  by (auto simp: sweep_calendar_def split: sum.splits)

lemma update_event_db: "ps_db (update_event ps s u ev) = ps_db ps"
  by (simp add: update_event_def Let_def split: sum.splits)

lemma recreate_mapped_db: "recreate_mapped ps s u = Inr ps' \<Longrightarrow> ps_db ps' = ps_db ps"
  by (auto simp: recreate_mapped_def split: sum.splits)

lemma push_session_rows:
  assumes "push_session now ps s = Inr ps'" and "r \<in> set (mappings (ps_db ps'))"
  shows "r \<in> set (mappings (ps_db ps)) \<or>
         (session_id r = sid s \<and> calendar_uid r = session_uid (sid s))"
  using assms
  by (auto simp: push_session_def update_event_db set_sync_mapping_def set_sync_mapping_rows_def
      dest: recreate_mapped_db split: list.splits sum.splits)

lemma push_sessions_rows:
  assumes "r \<in> set (mappings (ps_db (snd (push_sessions now ps ss))))"
  shows "r \<in> set (mappings (ps_db ps)) \<or>
         (\<exists>s \<in> set ss. session_id r = sid s \<and> calendar_uid r = session_uid (sid s))"
  using assms
proof (induction ss arbitrary: ps)
  case Nil
  then show ?case by simp
next
  case (Cons s ss)
  show ?case
  proof (cases "push_session now ps s")
    case (Inl e)
    with Cons.prems show ?thesis by simp
  next
    case (Inr ps')
    with Cons.prems have "r \<in> set (mappings (ps_db (snd (push_sessions now ps' ss))))"
      by simp
    from Cons.IH [OF this] push_session_rows [OF Inr] show ?thesis
      by auto
  qed
qed

section \<open>Push: what the sweeps and the loop do to the server\<close>

lemma behaviour_fields:
  assumes "behaviour c' = behaviour c"
  shows "search_uid_error c' = search_uid_error c" "delete_error c' = delete_error c"
    "direct_delete_error c' = direct_delete_error c" "add_error c' = add_error c"
    "save_error c' = save_error c" "in_range c' = in_range c"
    "search_range_error c' = search_range_error c"
proof -
  have f: "\<And>g. g (behaviour c') = g (behaviour c)"
    using assms by simp
  show "search_uid_error c' = search_uid_error c"
    using f [of search_uid_error] by (simp add: behaviour_def)
  show "delete_error c' = delete_error c"
    using f [of delete_error] by (simp add: behaviour_def)
  show "direct_delete_error c' = direct_delete_error c"
    using f [of direct_delete_error] by (simp add: behaviour_def)
  show "add_error c' = add_error c"
    using f [of add_error] by (simp add: behaviour_def)
  show "save_error c' = save_error c"
    using f [of save_error] by (simp add: behaviour_def)
  show "in_range c' = in_range c"
    using f [of in_range] by (simp add: behaviour_def)
  show "search_range_error c' = search_range_error c"
    using f [of search_range_error] by (simp add: behaviour_def)
qed

lemma shrunk_refl: "shrunk c c"
proof -
  have "cal_events c = filter (\<lambda>e. True) (cal_events c)"
    by simp
  then show ?thesis
    unfolding shrunk_def by blast
qed

lemma shrunk_trans:
  assumes "shrunk a b" and "shrunk b c"
  shows "shrunk a c"
proof -
  obtain f where f: "cal_events b = filter f (cal_events a)"
    using assms(1) unfolding shrunk_def by blast
  obtain g where g: "cal_events c = filter g (cal_events b)"
    using assms(2) unfolding shrunk_def by blast
  have "cal_events c = filter (\<lambda>e. f e \<and> g e) (cal_events a)"
    by (simp add: f g)
  moreover have "behaviour c = behaviour a"
    using assms unfolding shrunk_def by simp
  ultimately show ?thesis
    unfolding shrunk_def by blast
qed

lemma shrunk_subset: "shrunk c c' \<Longrightarrow> set (cal_events c') \<subseteq> set (cal_events c)"
  unfolding shrunk_def by auto

lemma shrunk_absent: "shrunk c c' \<Longrightarrow> absent u c \<Longrightarrow> absent u c'"
  using shrunk_subset unfolding absent_def by blast

lemma shrunk_single:
  assumes "shrunk c c'" and "length (filter (\<lambda>e. ev_uid e = u) (cal_events c)) \<le> 1"
  shows "length (filter (\<lambda>e. ev_uid e = u) (cal_events c')) \<le> 1"
proof -
  obtain keep where k: "cal_events c' = filter keep (cal_events c)"
    using assms(1) unfolding shrunk_def by blast
  have "filter (\<lambda>e. ev_uid e = u) (cal_events c') =
      filter keep (filter (\<lambda>e. ev_uid e = u) (cal_events c))"
    unfolding k by (simp add: conj_commute)
  then show ?thesis
    using order_trans [OF length_filter_le assms(2)] by (simp only:)
qed

lemma event_delete_shrunk: "event_delete c ev = Inr c' \<Longrightarrow> shrunk c c'"
  unfolding shrunk_def event_delete_def behaviour_def
  by (auto split: option.splits)

lemma client_delete_shrunk: "client_delete c url = Inr c' \<Longrightarrow> shrunk c c'"
  unfolding shrunk_def client_delete_def behaviour_def
  by (auto split: option.splits)

lemma try_delete_shrunk: "shrunk (ps_cal ps) (ps_cal (try_delete ps ev))"
  by (auto simp: try_delete_def shrunk_refl event_delete_shrunk client_delete_shrunk
      split: sum.splits)

lemma sweep_mapping_shrunk: "shrunk (ps_cal ps) (ps_cal (sweep_mapping ids ps m))"
  by (auto simp: sweep_mapping_def Let_def shrunk_refl try_delete_shrunk
      split: sum.splits list.splits)

lemma sweep_mappings_shrunk: "shrunk (ps_cal ps) (ps_cal (foldl (sweep_mapping ids) ps ms))"
proof (induction ms arbitrary: ps)
  case Nil
  show ?case by (simp add: shrunk_refl)
next
  case (Cons m ms)
  show ?case
    using shrunk_trans [OF sweep_mapping_shrunk [of ps ids m]
        Cons.IH [of "sweep_mapping ids ps m"]]
    by simp
qed

lemma sweep_event_shrunk: "shrunk (ps_cal ps) (ps_cal (sweep_event ids expected ps ev))"
  by (auto simp: sweep_event_def Let_def shrunk_refl try_delete_shrunk split: list.splits)

lemma sweep_events_shrunk:
  "shrunk (ps_cal ps) (ps_cal (foldl (sweep_event ids expected) ps evs))"
proof (induction evs arbitrary: ps)
  case Nil
  show ?case by (simp add: shrunk_refl)
next
  case (Cons ev evs)
  show ?case
    using shrunk_trans [OF sweep_event_shrunk [of ps ids expected ev]
        Cons.IH [of "sweep_event ids expected ps ev"]]
    by simp
qed

lemma sweep_calendar_shrunk:
  "shrunk (ps_cal ps) (ps_cal (fst (sweep_calendar now ids expected ps)))"
  by (auto simp: sweep_calendar_def shrunk_refl sweep_events_shrunk split: sum.splits)

text \<open>The first sweep at an orphaned mapping: its event goes when the server lets it.\<close>

lemma try_delete_removes:
  assumes "delete_error (ps_cal ps) (ev_url ev) = None \<or>
      direct_delete_error (ps_cal ps) (ev_url ev) = None"
  shows "cal_events (ps_cal (try_delete ps ev)) =
      filter (\<lambda>x. ev_url x \<noteq> ev_url ev) (cal_events (ps_cal ps))"
  using assms
  by (auto simp: try_delete_def event_delete_def client_delete_def split: option.splits)

lemma sweep_mapping_absent:
  assumes orphan: "session_id m \<notin> set ids"
    and search: "search_uid_error (ps_cal ps) (calendar_uid m) = None"
    and deletable: "\<forall>e \<in> set (cal_events (ps_cal ps)). ev_uid e = calendar_uid m \<longrightarrow>
        delete_error (ps_cal ps) (ev_url e) = None \<or>
        direct_delete_error (ps_cal ps) (ev_url e) = None"
    and single: "length (filter (\<lambda>e. ev_uid e = calendar_uid m) (cal_events (ps_cal ps))) \<le> 1"
  shows "absent (calendar_uid m) (ps_cal (sweep_mapping ids ps m))"
proof (cases "filter (\<lambda>e. ev_uid e = calendar_uid m) (cal_events (ps_cal ps))")
  case Nil
  then have "absent (calendar_uid m) (ps_cal ps)"
    by (simp add: absent_def filter_empty_conv)
  moreover have "ps_cal (sweep_mapping ids ps m) = ps_cal ps"
    using orphan search Nil by (simp add: sweep_mapping_def search_uid_def)
  ultimately show ?thesis
    by simp
next
  case (Cons ev rest)
  then have rest: "rest = []"
    using single by simp
  have "ev \<in> set (filter (\<lambda>e. ev_uid e = calendar_uid m) (cal_events (ps_cal ps)))"
    unfolding Cons by simp
  then have ev: "ev \<in> set (cal_events (ps_cal ps))" "ev_uid ev = calendar_uid m"
    by simp_all
  have cal: "ps_cal (sweep_mapping ids ps m) = ps_cal (try_delete ps ev)"
    using orphan search Cons by (simp add: sweep_mapping_def search_uid_def Let_def)
  have "delete_error (ps_cal ps) (ev_url ev) = None \<or>
      direct_delete_error (ps_cal ps) (ev_url ev) = None"
    using bspec [OF deletable ev(1)] ev(2) by simp
  then have gone: "cal_events (ps_cal (try_delete ps ev)) =
      filter (\<lambda>x. ev_url x \<noteq> ev_url ev) (cal_events (ps_cal ps))"
    by (rule try_delete_removes)
  show ?thesis
    unfolding absent_def cal gone
  proof
    fix e
    assume e: "e \<in> set (filter (\<lambda>x. ev_url x \<noteq> ev_url ev) (cal_events (ps_cal ps)))"
    show "ev_uid e \<noteq> calendar_uid m"
    proof
      assume "ev_uid e = calendar_uid m"
      with e have "e \<in> set (filter (\<lambda>e. ev_uid e = calendar_uid m) (cal_events (ps_cal ps)))"
        by simp
      then have "e = ev"
        unfolding Cons rest by simp
      with e show False
        by simp
    qed
  qed
qed

lemma sweep_mappings_absent:
  assumes row: "m \<in> set ms" and orphan: "session_id m \<notin> set ids"
    and search: "search_uid_error (ps_cal ps) (calendar_uid m) = None"
    and deletable: "\<forall>e \<in> set (cal_events (ps_cal ps)). ev_uid e = calendar_uid m \<longrightarrow>
        delete_error (ps_cal ps) (ev_url e) = None \<or>
        direct_delete_error (ps_cal ps) (ev_url e) = None"
    and single: "length (filter (\<lambda>e. ev_uid e = calendar_uid m) (cal_events (ps_cal ps))) \<le> 1"
  shows "absent (calendar_uid m) (ps_cal (foldl (sweep_mapping ids) ps ms))"
  using row search deletable single
proof (induction ms arbitrary: ps)
  case Nil
  then show ?case by simp
next
  case (Cons m' ms)
  let ?ps = "sweep_mapping ids ps m'"
  have sh: "shrunk (ps_cal ps) (ps_cal ?ps)"
    by (rule sweep_mapping_shrunk)
  show ?case
  proof (cases "m' = m")
    case True
    have "absent (calendar_uid m) (ps_cal ?ps)"
      unfolding True using orphan Cons.prems(2-4) by (rule sweep_mapping_absent)
    then have "absent (calendar_uid m) (ps_cal (foldl (sweep_mapping ids) ?ps ms))"
      using sweep_mappings_shrunk shrunk_absent by blast
    then show ?thesis
      by simp
  next
    case False
    with Cons.prems(1) have in_rest: "m \<in> set ms"
      by simp
    have b: "behaviour (ps_cal ?ps) = behaviour (ps_cal ps)"
      using sh unfolding shrunk_def by simp
    have s: "search_uid_error (ps_cal ?ps) (calendar_uid m) = None"
      using Cons.prems(2) behaviour_fields(1) [OF b] by simp
    have d: "\<forall>e \<in> set (cal_events (ps_cal ?ps)). ev_uid e = calendar_uid m \<longrightarrow>
        delete_error (ps_cal ?ps) (ev_url e) = None \<or>
        direct_delete_error (ps_cal ?ps) (ev_url e) = None"
      using Cons.prems(3) shrunk_subset [OF sh] behaviour_fields(2,3) [OF b] by auto
    have l: "length (filter (\<lambda>e. ev_uid e = calendar_uid m) (cal_events (ps_cal ?ps))) \<le> 1"
      using sh Cons.prems(4) by (rule shrunk_single)
    show ?thesis
      using Cons.IH [OF in_rest s d l] by simp
  qed
qed

lemma add_event_absent:
  assumes "add_event c u' summary description dtstart dtend = Inr c'" and "u' \<noteq> u"
    and "absent u c"
  shows "absent u c'" "behaviour c' = behaviour c"
  using assms
  by (auto simp: add_event_def absent_def behaviour_def split: option.splits)

lemma event_save_absent:
  assumes "event_save c ev = Inr c'" and "ev_uid ev \<noteq> u" and "absent u c"
  shows "absent u c'" "behaviour c' = behaviour c"
  using assms
  by (auto simp: event_save_def absent_def behaviour_def split: option.splits)

lemma event_delete_absent:
  assumes "absent u c"
  shows "absent u (case event_delete c ev of Inr c' \<Rightarrow> c' | Inl e \<Rightarrow> c)"
    "behaviour (case event_delete c ev of Inr c' \<Rightarrow> c' | Inl e \<Rightarrow> c) = behaviour c"
  using assms
  by (auto simp: event_delete_def absent_def behaviour_def split: option.splits)

lemma update_event_absent:
  assumes a: "absent u (ps_cal ps)" and u: "u' \<noteq> u" and e: "ev_uid ev \<noteq> u"
  shows "absent u (ps_cal (update_event ps s u' ev))"
    "behaviour (ps_cal (update_event ps s u' ev)) = behaviour (ps_cal ps)"
proof -
  let ?c1 = "case event_delete (ps_cal ps) ev of Inr c \<Rightarrow> c | Inl e \<Rightarrow> ps_cal ps"
  let ?new = "ev\<lparr>ev_summary := session_summary s, ev_description := session_description s,
      ev_dtstart := Some (DateTime (start_time s)),
              ev_dtend := Some (DateTime (session_end s))\<rparr>"
  have n: "ev_uid ?new \<noteq> u"
    using e by simp
  have c1: "absent u ?c1" "behaviour ?c1 = behaviour (ps_cal ps)"
    using event_delete_absent [OF a, of ev] by simp_all
  have both: "absent u (ps_cal (update_event ps s u' ev)) \<and>
      behaviour (ps_cal (update_event ps s u' ev)) = behaviour (ps_cal ps)"
    unfolding update_event_def Let_def
    using a c1 add_event_absent [OF _ u c1(1)] event_save_absent [OF _ n a]
    by (auto split: sum.splits)
  then show "absent u (ps_cal (update_event ps s u' ev))"
    "behaviour (ps_cal (update_event ps s u' ev)) = behaviour (ps_cal ps)"
    by simp_all
qed

lemma recreate_mapped_absent:
  assumes "recreate_mapped ps s u' = Inr ps'" and "absent u (ps_cal ps)" and "u' \<noteq> u"
  shows "absent u (ps_cal ps')" "behaviour (ps_cal ps') = behaviour (ps_cal ps)"
  using assms add_event_absent [of "ps_cal ps" u' _ _ _ _ _ u]
  by (auto simp: recreate_mapped_def split: sum.splits)

lemma get_sync_mapping_subset: "set (get_sync_mapping d i u) \<subseteq> set (mappings d)"
  by (auto simp: get_sync_mapping_def)

lemma search_uid_found:
  assumes "search_uid c u = Inr evs" and "e \<in> set evs"
  shows "e \<in> set (cal_events c)" "ev_uid e = u"
  using assms by (auto simp: search_uid_def split: option.splits)

lemma push_session_absent:
  assumes step: "push_session now ps s = Inr ps'"
    and a: "absent u (ps_cal ps)"
    and rows: "\<forall>r \<in> set (mappings (ps_db ps)). calendar_uid r \<noteq> u"
    and own: "session_uid (sid s) \<noteq> u"
  shows "absent u (ps_cal ps')" "behaviour (ps_cal ps') = behaviour (ps_cal ps)"
proof -
  have "absent u (ps_cal ps') \<and> behaviour (ps_cal ps') = behaviour (ps_cal ps)"
  proof (cases "get_sync_mapping (ps_db ps) (Some (sid s)) None")
    case Nil
    with step obtain c where
      c: "add_event (ps_cal ps) (session_uid (sid s)) (session_summary s)
            (session_description s) (start_time s) (session_end s) = Inr c"
      and ps': "ps_cal ps' = c"
      by (auto simp: push_session_def split: sum.splits)
    show ?thesis
      unfolding ps' using add_event_absent [OF c own a] by simp
  next
    case (Cons m ms)
    have "m \<in> set (mappings (ps_db ps))"
      using get_sync_mapping_subset [of "ps_db ps" "Some (sid s)" None] Cons by auto
    then have u': "calendar_uid m \<noteq> u"
      using rows by blast
    show ?thesis
    proof (cases "search_uid (ps_cal ps) (calendar_uid m)")
      case (Inl e)
      with step Cons have "recreate_mapped ps s (calendar_uid m) = Inr ps'"
        by (simp add: push_session_def)
      from recreate_mapped_absent [OF this a u'] show ?thesis
        by simp
    next
      case (Inr evs)
      show ?thesis
      proof (cases evs)
        case Nil
        with step Cons Inr have "recreate_mapped ps s (calendar_uid m) = Inr ps'"
          by (simp add: push_session_def split: sum.splits)
        from recreate_mapped_absent [OF this a u'] show ?thesis
          by simp
      next
        case (Cons ev rest)
        with step \<open>get_sync_mapping (ps_db ps) (Some (sid s)) None = m # ms\<close> Inr
        have ps': "ps' = update_event ps s (calendar_uid m) ev"
          by (simp add: push_session_def)
        have "ev_uid ev = calendar_uid m"
          using search_uid_found(2) [OF Inr, of ev] Cons by simp
        then have "ev_uid ev \<noteq> u"
          using u' by simp
        from update_event_absent [OF a u' this] show ?thesis
          unfolding ps' by simp
      qed
    qed
  qed
  then show "absent u (ps_cal ps')" "behaviour (ps_cal ps') = behaviour (ps_cal ps)"
    by simp_all
qed

lemma push_sessions_absent:
  assumes "absent u (ps_cal ps)"
    and "\<forall>r \<in> set (mappings (ps_db ps)). calendar_uid r \<noteq> u"
    and "\<forall>s \<in> set ss. session_uid (sid s) \<noteq> u"
  shows "absent u (ps_cal (snd (push_sessions now ps ss))) \<and>
         behaviour (ps_cal (snd (push_sessions now ps ss))) = behaviour (ps_cal ps)"
  using assms
proof (induction ss arbitrary: ps)
  case Nil
  then show ?case by simp
next
  case (Cons s ss)
  show ?case
  proof (cases "push_session now ps s")
    case (Inl e)
    with Cons.prems show ?thesis by simp
  next
    case (Inr ps')
    have own: "session_uid (sid s) \<noteq> u"
      using Cons.prems(3) by simp
    have a: "absent u (ps_cal ps')" and b: "behaviour (ps_cal ps') = behaviour (ps_cal ps)"
      using push_session_absent [OF Inr Cons.prems(1,2) own] by simp_all
    have rows: "\<forall>r \<in> set (mappings (ps_db ps')). calendar_uid r \<noteq> u"
      using push_session_rows [OF Inr] Cons.prems(2) own by metis
    have rest: "\<forall>s \<in> set ss. session_uid (sid s) \<noteq> u"
      using Cons.prems(3) by simp
    show ?thesis
      using Cons.IH [OF a rows rest] b Inr by simp
  qed
qed

section \<open>Push after a session was deleted\<close>

lemma sync_to_calendar_state:
  assumes "connected st"
  shows "snd (sync_to_calendar now st) =
           st\<lparr>db := ps_db (push_phases now st), cal := ps_cal (push_phases now st)\<rparr>"
  using assms
  by (simp add: sync_to_calendar_def ensure_connected_def push_phases_def Let_def
      split: prod.splits option.splits)

lemma all_mappings: "get_sync_mapping d None None = mappings d"
  by (simp add: get_sync_mapping_def given_int_def given_str_def)

lemma push_phases_connected: "push_phases now (st\<lparr>connected := b\<rparr>) = push_phases now st"
  by (simp add: push_phases_def)

lemma sync_to_calendar_connects:
  assumes "can_connect st"
  shows "db (snd (sync_to_calendar now st)) = ps_db (push_phases now st)"
    and "cal (snd (sync_to_calendar now st)) = ps_cal (push_phases now st)"
proof -
  have "ensure_connected st = (None, st\<lparr>connected := True\<rparr>)"
    using assms by (auto simp: can_connect_def ensure_connected_def connect_def)
  then have "sync_to_calendar now st = sync_to_calendar now (st\<lparr>connected := True\<rparr>)"
    by (simp add: sync_to_calendar_def ensure_connected_def)
  moreover have "connected (st\<lparr>connected := True\<rparr>)"
    by simp
  ultimately have "snd (sync_to_calendar now st) =
      st\<lparr>connected := True, db := ps_db (push_phases now st), cal := ps_cal (push_phases now st)\<rparr>"
    using sync_to_calendar_state [of "st\<lparr>connected := True\<rparr>" now]
    by (simp add: push_phases_connected)
  then show "db (snd (sync_to_calendar now st)) = ps_db (push_phases now st)"
    and "cal (snd (sync_to_calendar now st)) = ps_cal (push_phases now st)"
    by simp_all
qed

lemma session_ids: "set (map sid (get_all_sessions d)) = sid ` set (sessions d)"
  by (simp add: get_all_sessions_def)

lemma delete_session_mappings: "mappings (delete_session d i) = mappings d"
  by (simp add: delete_session_def)

lemma push_phases_unfold:
  "push_phases now st =
     snd (push_sessions now
       (fst (sweep_calendar now (map sid (get_all_sessions (db st)))
          (expected_uids_of (get_all_sessions (db st)) (mappings (db st)))
          (foldl (sweep_mapping (map sid (get_all_sessions (db st))))
             \<lparr>ps_db = db st, ps_cal = cal st, ps_synced = 0, ps_updated = 0, ps_deleted = 0\<rparr>
             (mappings (db st)))))
       (get_all_sessions (db st)))"
  unfolding push_phases_def Let_def all_mappings ..

lemma engine_after:
  "db (st\<lparr>db := a, cal := b\<rparr>) = a" "cal (st\<lparr>db := a, cal := b\<rparr>) = b"
  by simp_all

lemma push_phases_rows:
  assumes r: "r \<in> set (mappings (ps_db (push_phases now st)))"
  shows "(r \<in> set (mappings (db st)) \<and>
          (\<forall>m \<in> set (mappings (db st)). session_id m \<in> sid ` set (sessions (db st)) \<or>
             calendar_uid m = [] \<or> calendar_uid r \<noteq> calendar_uid m)) \<or>
         (\<exists>s \<in> set (sessions (db st)). session_id r = sid s \<and> calendar_uid r = session_uid (sid s))"
proof -
  define ss where "ss = get_all_sessions (db st)"
  define ids where "ids = map sid ss"
  define ps0 where
    "ps0 = \<lparr>ps_db = db st, ps_cal = cal st, ps_synced = 0, ps_updated = 0, ps_deleted = 0\<rparr>"
  define ps1 where "ps1 = foldl (sweep_mapping ids) ps0 (mappings (db st))"
  define ps2 where
    "ps2 = fst (sweep_calendar now ids (expected_uids_of ss (mappings (db st))) ps1)"
  have phases: "push_phases now st = snd (push_sessions now ps2 ss)"
    unfolding push_phases_unfold ps2_def ps1_def ps0_def ids_def ss_def ..
  have ss: "set ss = set (sessions (db st))"
    by (simp add: ss_def get_all_sessions_def)
  have ids: "set ids = sid ` set (sessions (db st))"
    by (simp add: ids_def ss)
  have rows0: "mappings (ps_db ps0) = mappings (db st)"
    by (simp add: ps0_def)
  have rows1: "mappings (ps_db ps1) =
      filter (\<lambda>r. \<forall>m \<in> set (mappings (db st)). session_id m \<in> set ids \<or>
                    calendar_uid m = [] \<or> calendar_uid r \<noteq> calendar_uid m)
        (mappings (db st))"
    unfolding ps1_def sweep_mappings_rows rows0 ..
  have rows2: "set (mappings (ps_db ps2)) \<subseteq> set (mappings (ps_db ps1))"
    unfolding ps2_def by (rule sweep_calendar_rows)
  from r have "r \<in> set (mappings (ps_db (snd (push_sessions now ps2 ss))))"
    unfolding phases .
  from push_sessions_rows [OF this]
  show ?thesis
  proof
    assume "r \<in> set (mappings (ps_db ps2))"
    then have "r \<in> set (mappings (ps_db ps1))"
      using rows2 by blast
    then show ?thesis
      unfolding rows1 ids by simp
  next
    assume "\<exists>s \<in> set ss. session_id r = sid s \<and> calendar_uid r = session_uid (sid s)"
    then show ?thesis
      unfolding ss by blast
  qed
qed

lemma push_phases_absent:
  assumes row: "m \<in> set (mappings (db st))"
    and orphan: "session_id m \<notin> sid ` set (sessions (db st))"
    and named: "calendar_uid m \<noteq> []"
    and search: "search_uid_error (cal st) (calendar_uid m) = None"
    and deletable: "\<forall>e \<in> set (cal_events (cal st)). ev_uid e = calendar_uid m \<longrightarrow>
        delete_error (cal st) (ev_url e) = None \<or> direct_delete_error (cal st) (ev_url e) = None"
    and single: "length (filter (\<lambda>e. ev_uid e = calendar_uid m) (cal_events (cal st))) \<le> 1"
    and fresh: "\<forall>s \<in> set (sessions (db st)). session_uid (sid s) \<noteq> calendar_uid m"
  shows "search_uid (ps_cal (push_phases now st)) (calendar_uid m) = Inr []"
proof -
  define u where "u = calendar_uid m"
  define ss where "ss = get_all_sessions (db st)"
  define ids where "ids = map sid ss"
  define ps0 where
    "ps0 = \<lparr>ps_db = db st, ps_cal = cal st, ps_synced = 0, ps_updated = 0, ps_deleted = 0\<rparr>"
  define ps1 where "ps1 = foldl (sweep_mapping ids) ps0 (mappings (db st))"
  define ps2 where
    "ps2 = fst (sweep_calendar now ids (expected_uids_of ss (mappings (db st))) ps1)"
  define ps3 where "ps3 = snd (push_sessions now ps2 ss)"
  have phases: "push_phases now st = ps3"
    unfolding push_phases_unfold ps3_def ps2_def ps1_def ps0_def ids_def ss_def ..
  have ss: "set ss = set (sessions (db st))"
    by (simp add: ss_def get_all_sessions_def)
  have ids: "set ids = sid ` set (sessions (db st))"
    by (simp add: ids_def ss)
  have orphan': "session_id m \<notin> set ids"
    using orphan unfolding ids .
  have c0: "ps_cal ps0 = cal st" and d0: "ps_db ps0 = db st"
    by (simp_all add: ps0_def)
  have s0: "search_uid_error (ps_cal ps0) (calendar_uid m) = None"
    unfolding c0 by (rule search)
  have e0: "\<forall>e \<in> set (cal_events (ps_cal ps0)). ev_uid e = calendar_uid m \<longrightarrow>
      delete_error (ps_cal ps0) (ev_url e) = None \<or>
      direct_delete_error (ps_cal ps0) (ev_url e) = None"
    unfolding c0 by (rule deletable)
  have l0: "length (filter (\<lambda>e. ev_uid e = calendar_uid m) (cal_events (ps_cal ps0))) \<le> 1"
    unfolding c0 by (rule single)
  have a1: "absent u (ps_cal ps1)"
    unfolding ps1_def u_def by (rule sweep_mappings_absent [OF row orphan' s0 e0 l0])
  have sh1: "shrunk (ps_cal ps0) (ps_cal ps1)"
    unfolding ps1_def by (rule sweep_mappings_shrunk)
  have sh2: "shrunk (ps_cal ps1) (ps_cal ps2)"
    unfolding ps2_def by (rule sweep_calendar_shrunk)
  have a2: "absent u (ps_cal ps2)"
    using sh2 a1 by (rule shrunk_absent)
  have rows1: "mappings (ps_db ps1) =
      filter (\<lambda>r. \<forall>m \<in> set (mappings (db st)). session_id m \<in> set ids \<or>
                    calendar_uid m = [] \<or> calendar_uid r \<noteq> calendar_uid m)
        (mappings (db st))"
    unfolding ps1_def sweep_mappings_rows d0 ..
  have rows2: "set (mappings (ps_db ps2)) \<subseteq> set (mappings (ps_db ps1))"
    unfolding ps2_def by (rule sweep_calendar_rows)
  have r2: "\<forall>r \<in> set (mappings (ps_db ps2)). calendar_uid r \<noteq> u"
  proof
    fix r
    assume "r \<in> set (mappings (ps_db ps2))"
    then have "r \<in> set (mappings (ps_db ps1))"
      using rows2 by blast
    then have "\<forall>m \<in> set (mappings (db st)). session_id m \<in> set ids \<or>
        calendar_uid m = [] \<or> calendar_uid r \<noteq> calendar_uid m"
      unfolding rows1 by simp
    from bspec [OF this row] show "calendar_uid r \<noteq> u"
      using orphan' named unfolding u_def by simp
  qed
  have f: "\<forall>s \<in> set ss. session_uid (sid s) \<noteq> u"
    unfolding ss u_def by (rule fresh)
  have a3: "absent u (ps_cal ps3)"
    and b3: "behaviour (ps_cal ps3) = behaviour (ps_cal ps2)"
    unfolding ps3_def using push_sessions_absent [OF a2 r2 f, of now] by simp_all
  have "behaviour (ps_cal ps3) = behaviour (cal st)"
    using b3 sh2 sh1 unfolding shrunk_def c0 by simp
  from behaviour_fields(1) [OF this]
  have "search_uid_error (ps_cal ps3) u = None"
    using search unfolding u_def by simp
  moreover have "filter (\<lambda>e. ev_uid e = u) (cal_events (ps_cal ps3)) = []"
    using a3 by (simp add: absent_def filter_empty_conv)
  ultimately have "search_uid (ps_cal ps3) u = Inr []"
    by (simp add: search_uid_def)
  then show ?thesis
    unfolding phases u_def .
qed

text \<open>
  Claim C2, as the spec words it: after the session of a mapping is deleted and a push is
  run, the mapping row is gone and a search for the mapping's UID on the server is empty. It
  is false of the code in two ways. When every server operation succeeds: session 1 is
  mapped to the UID \<open>pomodoro-2@pomodoro-timer\<close> (an event of that UID was imported by a
  pull) and session 2 has no mapping yet; after session 1 is deleted the push removes the
  event and then creates the event of session 2 under that very UID. And when the engine
  holds no calendar and cannot connect, the push returns the error and the mapping row of
  the deleted session stays.
\<close>

theorem orphan_uid_reused_counterexample:
  "search_uid
     (cal (push_after_delete 7
        (engine_of (store_of [reading_session, second_session]
                      [link 1 ''pomodoro-2@pomodoro-timer''])
           (reliable_server [pushed_event reading_session ''pomodoro-2@pomodoro-timer''])) 1))
     ''pomodoro-2@pomodoro-timer'' =
   Inr [pushed_event second_session ''pomodoro-2@pomodoro-timer''] \<and>
   mappings (db (push_after_delete 7
        (offline_engine (store_of [reading_session] [link 1 ''pomodoro-1@pomodoro-timer''])
           (reliable_server [pushed_event reading_session ''pomodoro-1@pomodoro-timer''])) 1)) =
     [link 1 ''pomodoro-1@pomodoro-timer'']"
proof -
  have offline: "mappings (db (push_after_delete 7
        (offline_engine (store_of [reading_session] [link 1 ''pomodoro-1@pomodoro-timer''])
           (reliable_server [pushed_event reading_session ''pomodoro-1@pomodoro-timer''])) 1)) =
     [link 1 ''pomodoro-1@pomodoro-timer'']"
    by (simp add: push_after_delete_def sync_to_calendar_def ensure_connected_def connect_def
        offline_engine_def given_str_def delete_session_def store_of_def)
  let ?u = "''pomodoro-2@pomodoro-timer''"
  let ?st = "engine_of (delete_session (store_of [reading_session, second_session] [link 1 ?u]) 1)
      (reliable_server [pushed_event reading_session ?u])"
  have uid: "session_uid 2 = ?u"
    by (simp add: session_uid_def str_int_def digit_char_def)
  have run: "ps_cal (push_phases 7 ?st) = reliable_server [pushed_event second_session ?u]"
    by (simp add: push_phases_def Let_def engine_of_def get_all_sessions_def delete_session_def
        store_of_def reading_session_def second_session_def all_mappings link_def
        sweep_mapping_def search_uid_def reliable_server_def pushed_event_def try_delete_def
        event_delete_def delete_sync_mapping_def delete_rows_by_uid sweep_calendar_def
        search_range_def push_session_def get_sync_mapping_def given_int_def given_str_def
        add_event_def uid expected_uids_of_def year_seconds_def)
  have st: "(engine_of (store_of [reading_session, second_session] [link 1 ?u])
        (reliable_server [pushed_event reading_session ?u]))
      \<lparr>db := delete_session (db (engine_of (store_of [reading_session, second_session]
          [link 1 ?u]) (reliable_server [pushed_event reading_session ?u]))) 1\<rparr> = ?st"
    by (simp add: engine_of_def)
  have c: "connected ?st"
    by (simp add: engine_of_def)
  have "cal (snd (sync_to_calendar 7 ?st)) = reliable_server [pushed_event second_session ?u]"
    unfolding sync_to_calendar_state [OF c] run by simp
  then have "search_uid
     (cal (push_after_delete 7
        (engine_of (store_of [reading_session, second_session] [link 1 ?u])
           (reliable_server [pushed_event reading_session ?u])) 1)) ?u =
     Inr [pushed_event second_session ?u]"
    unfolding push_after_delete_def st
    by (simp add: search_uid_def reliable_server_def pushed_event_def)
  then show ?thesis
    using offline by (rule conjI)
qed

text \<open>
  Claim C2, amended. Let a mapping of session \<open>i\<close> exist, with a UID that is not empty as
  every UID the engine stores is, and let session \<open>i\<close> be deleted and a push be run by an
  engine that has a calendar at hand or connects to one. Then no row of the mapping table
  refers to session \<open>i\<close> any more, whatever the server answers to the search and the delete:
  also when they fail. If moreover the search for the UID succeeds, each event of that UID
  can be deleted by one of the two routes, the server holds at most one event of that UID,
  and the UID is not the one derived from the id of a remaining session, then after the push
  a search for the UID on the server is empty.
\<close>

theorem orphan_convergence:
  assumes conn: "can_connect st"
    and row: "m \<in> set (mappings (db st))" "session_id m = i"
    and named: "\<forall>r \<in> set (mappings (db st)). session_id r = i \<longrightarrow> calendar_uid r \<noteq> []"
  shows "(\<forall>r \<in> set (mappings (db (push_after_delete now st i))). session_id r \<noteq> i) \<and>
         (search_uid_error (cal st) (calendar_uid m) = None \<and>
          (\<forall>e \<in> set (cal_events (cal st)). ev_uid e = calendar_uid m \<longrightarrow>
             delete_error (cal st) (ev_url e) = None \<or>
             direct_delete_error (cal st) (ev_url e) = None) \<and>
          length (filter (\<lambda>e. ev_uid e = calendar_uid m) (cal_events (cal st))) \<le> 1 \<and>
          (\<forall>s \<in> set (sessions (db st)). sid s \<noteq> i \<longrightarrow> session_uid (sid s) \<noteq> calendar_uid m)
          \<longrightarrow> search_uid (cal (push_after_delete now st i)) (calendar_uid m) = Inr [])"
proof -
  define st' where "st' = st\<lparr>db := delete_session (db st) i\<rparr>"
  have st': "mappings (db st') = mappings (db st)" "cal st' = cal st" "can_connect st'"
    "set (sessions (db st')) = {s \<in> set (sessions (db st)). sid s \<noteq> i}"
    using conn by (auto simp: st'_def delete_session_def can_connect_def)
  have final: "db (push_after_delete now st i) = ps_db (push_phases now st')"
    "cal (push_after_delete now st i) = ps_cal (push_phases now st')"
    unfolding push_after_delete_def st'_def [symmetric]
    by (rule sync_to_calendar_connects [OF st'(3)])+
  have gone: "i \<notin> sid ` set (sessions (db st'))"
    unfolding st'(4) by auto
  have part1: "\<forall>r \<in> set (mappings (ps_db (push_phases now st'))). session_id r \<noteq> i"
  proof
    fix r
    assume r: "r \<in> set (mappings (ps_db (push_phases now st')))"
    show "session_id r \<noteq> i"
    proof
      assume i: "session_id r = i"
      from push_phases_rows [OF r] gone i
      have old: "r \<in> set (mappings (db st'))"
        and swept: "\<forall>m \<in> set (mappings (db st')). session_id m \<in> sid ` set (sessions (db st')) \<or>
            calendar_uid m = [] \<or> calendar_uid r \<noteq> calendar_uid m"
        by auto
      from bspec [OF swept old] gone i have "calendar_uid r = []"
        by simp
      moreover have "calendar_uid r \<noteq> []"
        using named old i unfolding st'(1) by blast
      ultimately show False
        by simp
    qed
  qed
  have part2: "search_uid_error (cal st) (calendar_uid m) = None \<and>
      (\<forall>e \<in> set (cal_events (cal st)). ev_uid e = calendar_uid m \<longrightarrow>
         delete_error (cal st) (ev_url e) = None \<or>
         direct_delete_error (cal st) (ev_url e) = None) \<and>
      length (filter (\<lambda>e. ev_uid e = calendar_uid m) (cal_events (cal st))) \<le> 1 \<and>
      (\<forall>s \<in> set (sessions (db st)). sid s \<noteq> i \<longrightarrow> session_uid (sid s) \<noteq> calendar_uid m)
      \<longrightarrow> search_uid (ps_cal (push_phases now st')) (calendar_uid m) = Inr []"
  proof
    assume a: "search_uid_error (cal st) (calendar_uid m) = None \<and>
      (\<forall>e \<in> set (cal_events (cal st)). ev_uid e = calendar_uid m \<longrightarrow>
         delete_error (cal st) (ev_url e) = None \<or>
         direct_delete_error (cal st) (ev_url e) = None) \<and>
      length (filter (\<lambda>e. ev_uid e = calendar_uid m) (cal_events (cal st))) \<le> 1 \<and>
      (\<forall>s \<in> set (sessions (db st)). sid s \<noteq> i \<longrightarrow> session_uid (sid s) \<noteq> calendar_uid m)"
    note a1 = conjunct1 [OF a]
    note a2 = conjunct1 [OF conjunct2 [OF a]]
    note a3 = conjunct1 [OF conjunct2 [OF conjunct2 [OF a]]]
    note a4 = conjunct2 [OF conjunct2 [OF conjunct2 [OF a]]]
    have row': "m \<in> set (mappings (db st'))"
      unfolding st'(1) by (rule row(1))
    have orphan: "session_id m \<notin> sid ` set (sessions (db st'))"
      unfolding row(2) by (rule gone)
    have u: "calendar_uid m \<noteq> []"
      using named row by blast
    have search: "search_uid_error (cal st') (calendar_uid m) = None"
      unfolding st'(2) by (rule a1)
    have deletable: "\<forall>e \<in> set (cal_events (cal st')). ev_uid e = calendar_uid m \<longrightarrow>
        delete_error (cal st') (ev_url e) = None \<or>
        direct_delete_error (cal st') (ev_url e) = None"
      unfolding st'(2) by (rule a2)
    have single: "length (filter (\<lambda>e. ev_uid e = calendar_uid m) (cal_events (cal st'))) \<le> 1"
      unfolding st'(2) by (rule a3)
    have fresh: "\<forall>s \<in> set (sessions (db st')). session_uid (sid s) \<noteq> calendar_uid m"
      unfolding st'(4) using a4 by simp
    show "search_uid (ps_cal (push_phases now st')) (calendar_uid m) = Inr []"
      by (rule push_phases_absent [OF row' orphan u search deletable single fresh])
  qed
  from part1 part2 show ?thesis
    unfolding final by (rule conjI)
qed

theorem orphan_convergence_witness:
  "can_connect (engine_of (store_of [reading_session] [link 1 ''pomodoro-1@pomodoro-timer''])
     (reliable_server [pushed_event reading_session ''pomodoro-1@pomodoro-timer''])) \<and>
   link 1 ''pomodoro-1@pomodoro-timer'' \<in>
     set (mappings (db (engine_of (store_of [reading_session] [link 1 ''pomodoro-1@pomodoro-timer''])
       (reliable_server [pushed_event reading_session ''pomodoro-1@pomodoro-timer''])))) \<and>
   session_id (link 1 ''pomodoro-1@pomodoro-timer'') = 1 \<and>
   calendar_uid (link 1 ''pomodoro-1@pomodoro-timer'') = ''pomodoro-1@pomodoro-timer'' \<and>
   1 \<notin> session_id ` set (mappings (db (push_after_delete 7
        (engine_of (store_of [reading_session] [link 1 ''pomodoro-1@pomodoro-timer''])
           (reliable_server [pushed_event reading_session ''pomodoro-1@pomodoro-timer''])) 1))) \<and>
   search_uid
     (cal (push_after_delete 7
        (engine_of (store_of [reading_session] [link 1 ''pomodoro-1@pomodoro-timer''])
           (reliable_server [pushed_event reading_session ''pomodoro-1@pomodoro-timer''])) 1))
     ''pomodoro-1@pomodoro-timer'' = Inr [] \<and>
   1 \<notin> session_id ` set (mappings (db (push_after_delete 7
        (engine_of (store_of [reading_session] [link 1 ''pomodoro-1@pomodoro-timer''])
           (stubborn_server [pushed_event reading_session ''pomodoro-1@pomodoro-timer''])) 1)))"
proof -
  let ?u = "''pomodoro-1@pomodoro-timer''"
  let ?d = "store_of [reading_session] [link 1 ?u]"
  let ?st = "engine_of ?d (reliable_server [pushed_event reading_session ?u])"
  let ?sb = "engine_of ?d (stubborn_server [pushed_event reading_session ?u])"
  have c: "can_connect ?st" "can_connect ?sb"
    by (simp_all add: engine_of_def can_connect_def)
  have r: "link 1 ?u \<in> set (mappings (db ?st))" "link 1 ?u \<in> set (mappings (db ?sb))"
    by (simp_all add: engine_of_def store_of_def)
  have i: "session_id (link 1 ?u) = 1" and u: "calendar_uid (link 1 ?u) = ?u"
    by (simp_all add: link_def)
  have n: "\<forall>r \<in> set (mappings (db ?st)). session_id r = 1 \<longrightarrow> calendar_uid r \<noteq> []"
    "\<forall>r \<in> set (mappings (db ?sb)). session_id r = 1 \<longrightarrow> calendar_uid r \<noteq> []"
    by (simp_all add: engine_of_def store_of_def link_def)
  have server: "search_uid_error (cal ?st) (calendar_uid (link 1 ?u)) = None \<and>
      (\<forall>e \<in> set (cal_events (cal ?st)). ev_uid e = calendar_uid (link 1 ?u) \<longrightarrow>
         delete_error (cal ?st) (ev_url e) = None \<or>
         direct_delete_error (cal ?st) (ev_url e) = None) \<and>
      length (filter (\<lambda>e. ev_uid e = calendar_uid (link 1 ?u)) (cal_events (cal ?st))) \<le> 1 \<and>
      (\<forall>s \<in> set (sessions (db ?st)). sid s \<noteq> 1 \<longrightarrow>
         session_uid (sid s) \<noteq> calendar_uid (link 1 ?u))"
    by (simp add: engine_of_def reliable_server_def store_of_def reading_session_def)
  note good = orphan_convergence [OF c(1) r(1) i n(1), of 7]
  note bad = orphan_convergence [OF c(2) r(2) i n(2), of 7]
  have empty: "search_uid (cal (push_after_delete 7 ?st 1)) ?u = Inr []"
    using mp [OF conjunct2 [OF good] server] unfolding u .
  have g: "1 \<notin> session_id ` set (mappings (db (push_after_delete 7 ?st 1)))"
    using conjunct1 [OF good] by (rule contrapos_pn [of _ _], auto)
  have b: "1 \<notin> session_id ` set (mappings (db (push_after_delete 7 ?sb 1)))"
    using conjunct1 [OF bad] by (rule contrapos_pn [of _ _], auto)
  from c(1) r(1) i u g empty b show ?thesis
    by (intro conjI)
qed

section \<open>A sync of a store and a server that are in step\<close>

lemma sweep_mappings_live:
  assumes "\<forall>m \<in> set ms. session_id m \<in> set ids"
  shows "foldl (sweep_mapping ids) ps ms = ps"
  using assms by (induction ms arbitrary: ps) (simp_all add: sweep_mapping_def)

lemma sweep_events_expected:
  assumes "\<forall>e \<in> set evs. is_pomodoro_uid (ev_uid e) \<or> has_marker (ev_summary e) \<longrightarrow>
      ev_uid e \<in> set expected"
  shows "foldl (sweep_event ids expected) ps evs = ps"
  using assms by (induction evs arbitrary: ps) (simp_all add: sweep_event_def)

lemma in_step_expected:
  assumes "in_step d c" and "e \<in> set (cal_events c)"
    and "is_pomodoro_uid (ev_uid e) \<or> has_marker (ev_summary e)"
  shows "ev_uid e \<in> set (expected_uids_of (get_all_sessions d) (mappings d))"
proof -
  from assms have "ev_uid e \<in> calendar_uid ` set (mappings d)"
    unfolding in_step_def by blast
  then obtain m where m: "m \<in> set (mappings d)" "calendar_uid m = ev_uid e"
    by auto
  with assms(1) have "session_id m \<in> sid ` set (sessions d)"
    unfolding in_step_def by blast
  then have "session_id m \<in> set (map sid (get_all_sessions d))"
    unfolding session_ids .
  with m show ?thesis
    unfolding expected_uids_of_def by force
qed

lemma in_step_sweeps:
  assumes "in_step d c"
  shows "foldl (sweep_mapping (map sid (get_all_sessions d))) ps (mappings d) = ps"
    and "ps_cal ps = c \<Longrightarrow>
      sweep_calendar now (map sid (get_all_sessions d))
        (expected_uids_of (get_all_sessions d) (mappings d)) ps =
      (ps, Some (length (filter (in_range c (now - year_seconds) (now + year_seconds))
                           (cal_events c))))"
proof -
  have "\<forall>m \<in> set (mappings d). session_id m \<in> set (map sid (get_all_sessions d))"
    unfolding session_ids using assms unfolding in_step_def by blast
  then show "foldl (sweep_mapping (map sid (get_all_sessions d))) ps (mappings d) = ps"
    by (rule sweep_mappings_live)
next
  assume c: "ps_cal ps = c"
  let ?evs = "filter (in_range c (now - year_seconds) (now + year_seconds)) (cal_events c)"
  have r: "search_range c (now - year_seconds) (now + year_seconds) = Inr ?evs"
    using assms unfolding in_step_def never_fails_def by (simp add: search_range_def)
  have "\<forall>e \<in> set ?evs. is_pomodoro_uid (ev_uid e) \<or> has_marker (ev_summary e) \<longrightarrow>
      ev_uid e \<in> set (expected_uids_of (get_all_sessions d) (mappings d))"
    using in_step_expected [OF assms] by simp
  then have "foldl (sweep_event (map sid (get_all_sessions d))
      (expected_uids_of (get_all_sessions d) (mappings d))) ps ?evs = ps"
    by (rule sweep_events_expected)
  then show "sweep_calendar now (map sid (get_all_sessions d))
        (expected_uids_of (get_all_sessions d) (mappings d)) ps = (ps, Some (length ?evs))"
    unfolding sweep_calendar_def c r by simp
qed

lemma never_fails_behaviour: "behaviour c' = behaviour c \<Longrightarrow> never_fails c' = never_fails c"
  unfolding never_fails_def using behaviour_fields [of c' c] by simp

lemma same_key_same_element:
  assumes "distinct (map f xs)" and "x \<in> set xs" and "y \<in> set xs" and "f x = f y"
  shows "x = y"
  using assms by (meson distinct_map inj_on_def)

lemma event_save_in_place:
  assumes ev: "ev \<in> set (cal_events c)"
    and urls: "distinct (map ev_url (cal_events c))"
    and ok: "save_error c (ev_url ev) = None"
    and same: "ev_url ev' = ev_url ev" "ev_uid ev' = ev_uid ev"
  obtains c' where "event_save c ev' = Inr c'"
    and "map ev_url (cal_events c') = map ev_url (cal_events c)"
    and "map ev_uid (cal_events c') = map ev_uid (cal_events c)"
    and "set (cal_events c') \<subseteq> insert ev' (set (cal_events c))"
    and "behaviour c' = behaviour c"
proof -
  define c' where
    "c' = c\<lparr>cal_events := map (\<lambda>x. if ev_url x = ev_url ev' then ev' else x) (cal_events c)\<rparr>"
  have events: "cal_events c' = map (\<lambda>x. if ev_url x = ev_url ev' then ev' else x) (cal_events c)"
    by (simp add: c'_def)
  have 1: "event_save c ev' = Inr c'"
    using ok by (simp add: event_save_def c'_def same)
  have 2: "map ev_url (cal_events c') = map ev_url (cal_events c)"
    unfolding events by (simp add: o_def cong: if_cong)
  have 3: "map ev_uid (cal_events c') = map ev_uid (cal_events c)"
    unfolding events map_map
  proof (rule map_cong [OF refl])
    fix x
    assume x: "x \<in> set (cal_events c)"
    show "(ev_uid \<circ> (\<lambda>x. if ev_url x = ev_url ev' then ev' else x)) x = ev_uid x"
    proof (cases "ev_url x = ev_url ev'")
      case True
      then have "x = ev"
        using same_key_same_element [OF urls x ev] same(1) by simp
      with True show ?thesis
        by (simp add: same)
    next
      case False
      then show ?thesis by simp
    qed
  qed
  have 4: "set (cal_events c') \<subseteq> insert ev' (set (cal_events c))"
    unfolding events by auto
  have 5: "behaviour c' = behaviour c"
    by (simp add: behaviour_def c'_def)
  from 1 2 3 4 5 show thesis
    by (rule that)
qed

lemma push_session_in_step:
  assumes step: "in_step (ps_db ps) (ps_cal ps)" and s: "s \<in> set (sessions (ps_db ps))"
  obtains ps' where "push_session now ps s = Inr ps'" and "ps_db ps' = ps_db ps"
    and "in_step (ps_db ps') (ps_cal ps')"
    and "ps_synced ps' = ps_synced ps" and "ps_updated ps' = ps_updated ps + 1"
    and "ps_deleted ps' = ps_deleted ps"
proof -
  define d where "d = ps_db ps"
  define c where "c = ps_cal ps"
  note inv = step [unfolded in_step_def, folded d_def c_def]
  have ok: "never_fails c"
    and urls: "distinct (map ev_url (cal_events c))"
    using inv by simp_all
  have sess: "sid s \<noteq> 0" "sid s \<in> session_id ` set (mappings d)"
    using inv s unfolding d_def by blast+
  have "filter (\<lambda>m. session_id m = sid s) (mappings d) \<noteq> []"
    using sess(2) by (auto simp: filter_empty_conv)
  then obtain m ms where rows: "filter (\<lambda>m. session_id m = sid s) (mappings d) = m # ms"
    by (cases "filter (\<lambda>m. session_id m = sid s) (mappings d)") auto
  have lookup: "get_sync_mapping (ps_db ps) (Some (sid s)) None = m # ms"
    using sess(1) rows by (simp add: get_sync_mapping_def given_int_def d_def)
  have "m \<in> set (filter (\<lambda>m. session_id m = sid s) (mappings d))"
    unfolding rows by simp
  then have m: "m \<in> set (mappings d)"
    by simp
  then have there: "calendar_uid m \<in> ev_uid ` set (cal_events c)"
    using inv by blast
  then have "filter (\<lambda>e. ev_uid e = calendar_uid m) (cal_events c) \<noteq> []"
    by (auto simp: filter_empty_conv)
  then obtain ev evs where found: "filter (\<lambda>e. ev_uid e = calendar_uid m) (cal_events c) = ev # evs"
    by (cases "filter (\<lambda>e. ev_uid e = calendar_uid m) (cal_events c)") auto
  have search: "search_uid (ps_cal ps) (calendar_uid m) = Inr (ev # evs)"
    using ok found unfolding never_fails_def by (simp add: search_uid_def c_def)
  have "ev \<in> set (filter (\<lambda>e. ev_uid e = calendar_uid m) (cal_events c))"
    unfolding found by simp
  then have ev: "ev \<in> set (cal_events c)" "ev_uid ev = calendar_uid m"
    by simp_all
  have mapped: "ev_uid ev \<in> calendar_uid ` set (mappings d)"
    unfolding ev(2) using m by (rule imageI)
  obtain a b where ab: "ev_dtstart ev = Some (DateTime a)" "ev_dtend ev = Some (DateTime b)"
    using inv ev(1) mapped by blast
  define ev' where
    "ev' = ev\<lparr>ev_summary := session_summary s, ev_description := session_description s,
              ev_dtstart := Some (DateTime (start_time s)),
              ev_dtend := Some (DateTime (session_end s))\<rparr>"
  have same: "ev_url ev' = ev_url ev" "ev_uid ev' = ev_uid ev"
    by (simp_all add: ev'_def)
  have new: "\<exists>a b. ev_dtstart ev' = Some (DateTime a) \<and> ev_dtend ev' = Some (DateTime b)"
    by (simp add: ev'_def)
  have save_ok: "save_error c (ev_url ev) = None"
    using ok unfolding never_fails_def by simp
  obtain c' where saved: "event_save c ev' = Inr c'"
    and urls': "map ev_url (cal_events c') = map ev_url (cal_events c)"
    and uids': "map ev_uid (cal_events c') = map ev_uid (cal_events c)"
    and sub: "set (cal_events c') \<subseteq> insert ev' (set (cal_events c))"
    and beh: "behaviour c' = behaviour c"
    using ev(1) urls save_ok same by (rule event_save_in_place)
  define ps' where "ps' = ps\<lparr>ps_cal := c', ps_updated := ps_updated ps + 1\<rparr>"
  have upd: "update_event ps s (calendar_uid m) ev = ps'"
    using saved unfolding update_event_def ps'_def ev'_def c_def
    by (simp add: ab)
  have 1: "push_session now ps s = Inr ps'"
    by (simp add: push_session_def lookup search upd)
  have 2: "ps_db ps' = ps_db ps" "ps_synced ps' = ps_synced ps"
    "ps_updated ps' = ps_updated ps + 1" "ps_deleted ps' = ps_deleted ps" "ps_cal ps' = c'"
    by (simp_all add: ps'_def)
  have uidset: "ev_uid ` set (cal_events c') = ev_uid ` set (cal_events c)"
    using arg_cong [OF uids', of set] by simp
  have "in_step d c'"
    unfolding in_step_def
  proof (intro conjI ballI)
    show "never_fails c'"
      using ok never_fails_behaviour [OF beh] by simp
    show "distinct (map ev_url (cal_events c'))"
      unfolding urls' by (rule urls)
  next
    fix x
    assume "x \<in> set (sessions d)"
    then show "sid x \<noteq> 0" "sid x \<in> session_id ` set (mappings d)"
      using inv by blast+
  next
    fix r
    assume r: "r \<in> set (mappings d)"
    then show "calendar_uid r \<noteq> []" "session_id r \<in> sid ` set (sessions d)"
      using inv by blast+
    show "calendar_uid r \<in> ev_uid ` set (cal_events c')"
      unfolding uidset using inv r by blast
  next
    fix e
    assume "e \<in> set (cal_events c')"
    then have e: "e = ev' \<or> e \<in> set (cal_events c)"
      using sub by blast
    show "ev_uid e \<in> calendar_uid ` set (mappings d) \<longrightarrow>
        (\<exists>a b. ev_dtstart e = Some (DateTime a) \<and> ev_dtend e = Some (DateTime b))"
      using e new inv by blast
    show "is_pomodoro_uid (ev_uid e) \<or> has_marker (ev_summary e) \<longrightarrow>
        ev_uid e \<in> calendar_uid ` set (mappings d)"
      using e mapped same(2) inv by metis
  qed
  then have 3: "in_step (ps_db ps') (ps_cal ps')"
    unfolding 2 d_def .
  from 1 2(1) 3 2(2-4) show thesis
    by (rule that)
qed

lemma push_sessions_in_step:
  assumes "in_step (ps_db ps) (ps_cal ps)" and "set ss \<subseteq> set (sessions (ps_db ps))"
  obtains ps' where "push_sessions now ps ss = (None, ps')" and "ps_db ps' = ps_db ps"
    and "in_step (ps_db ps') (ps_cal ps')"
    and "ps_synced ps' = ps_synced ps" and "ps_updated ps' = ps_updated ps + length ss"
    and "ps_deleted ps' = ps_deleted ps"
proof -
  have "\<exists>ps'. push_sessions now ps ss = (None, ps') \<and> ps_db ps' = ps_db ps \<and>
      in_step (ps_db ps') (ps_cal ps') \<and> ps_synced ps' = ps_synced ps \<and>
      ps_updated ps' = ps_updated ps + length ss \<and> ps_deleted ps' = ps_deleted ps"
    using assms
  proof (induction ss arbitrary: ps)
    case Nil
    then show ?case by simp
  next
    case (Cons s ss)
    have s: "s \<in> set (sessions (ps_db ps))"
      using Cons.prems(2) by simp
    obtain ps1 where one: "push_session now ps s = Inr ps1" and d1: "ps_db ps1 = ps_db ps"
      and i1: "in_step (ps_db ps1) (ps_cal ps1)"
      and k1: "ps_synced ps1 = ps_synced ps" "ps_updated ps1 = ps_updated ps + 1"
        "ps_deleted ps1 = ps_deleted ps"
      using Cons.prems(1) s by (rule push_session_in_step)
    have "set ss \<subseteq> set (sessions (ps_db ps1))"
      unfolding d1 using Cons.prems(2) by simp
    from Cons.IH [OF i1 this] obtain ps' where
      rest: "push_sessions now ps1 ss = (None, ps')" and d': "ps_db ps' = ps_db ps1"
      and i': "in_step (ps_db ps') (ps_cal ps')"
      and k': "ps_synced ps' = ps_synced ps1" "ps_updated ps' = ps_updated ps1 + length ss"
        "ps_deleted ps' = ps_deleted ps1"
      by blast
    have "push_sessions now ps (s # ss) = (None, ps')"
      by (simp add: one rest)
    moreover have "ps_updated ps' = ps_updated ps + length (s # ss)"
      unfolding k'(2) k1(2) by simp
    ultimately show ?case
      using d' d1 i' k'(1,3) k1(1,3) by simp
  qed
  then show thesis
    using that by blast
qed

lemma sync_to_calendar_connected:
  assumes "connected st"
  shows "sync_to_calendar now st =
     (let ss = get_all_sessions (db st);
          all_mappings = get_sync_mapping (db st) None None;
          session_ids = map sid ss;
          expected_uids = expected_uids_of ss all_mappings;
          ps0 = \<lparr>ps_db = db st, ps_cal = cal st, ps_synced = 0, ps_updated = 0, ps_deleted = 0\<rparr>;
          ps1 = foldl (sweep_mapping session_ids) ps0 all_mappings;
          (ps2, checked) = sweep_calendar now session_ids expected_uids ps1;
          (raised, ps3) = push_sessions now ps2 ss;
          st2 = st\<lparr>db := ps_db ps3, cal := ps_cal ps3\<rparr>
      in case raised of
           Some e \<Rightarrow> (PushError e, st2)
         | None \<Rightarrow>
             (PushOk (ps_synced ps3) (ps_updated ps3) (ps_deleted ps3)
                (push_message_of (ps_synced ps3) (ps_updated ps3) (ps_deleted ps3)
                   (length ss) (length all_mappings) checked),
              st2))"
  using assms by (simp add: sync_to_calendar_def ensure_connected_def)

lemma sync_to_calendar_steps:
  assumes "connected st"
    and "get_all_sessions (db st) = ss"
    and "mappings (db st) = ms"
    and "foldl (sweep_mapping (map sid ss))
           \<lparr>ps_db = db st, ps_cal = cal st, ps_synced = 0, ps_updated = 0, ps_deleted = 0\<rparr> ms =
         ps1"
    and "sweep_calendar now (map sid ss) (expected_uids_of ss ms) ps1 = (ps2, checked)"
    and "push_sessions now ps2 ss = (None, ps3)"
  shows "sync_to_calendar now st =
           (PushOk (ps_synced ps3) (ps_updated ps3) (ps_deleted ps3)
              (push_message_of (ps_synced ps3) (ps_updated ps3) (ps_deleted ps3) (length ss)
                 (length ms) checked),
            st\<lparr>db := ps_db ps3, cal := ps_cal ps3\<rparr>)"
  unfolding sync_to_calendar_connected [OF assms(1)] all_mappings assms(2,3) Let_def assms(4,5)
    prod.case assms(6) option.case ..

lemma push_in_step:
  assumes conn: "connected st" and step: "in_step (db st) (cal st)"
  obtains c' where
    "sync_to_calendar now st =
       (PushOk 0 (length (sessions (db st))) 0
          (''Synced 0 new, updated '' @ str_nat (length (sessions (db st))) @ '' existing''),
        st\<lparr>db := db st, cal := c'\<rparr>)"
    and "in_step (db st) c'"
proof -
  define ss where "ss = get_all_sessions (db st)"
  define ps0 where
    "ps0 = \<lparr>ps_db = db st, ps_cal = cal st, ps_synced = 0, ps_updated = 0, ps_deleted = 0\<rparr>"
  define n where
    "n = length (filter (in_range (cal st) (now - year_seconds) (now + year_seconds))
           (cal_events (cal st)))"
  have p0: "ps_db ps0 = db st" "ps_cal ps0 = cal st" "ps_synced ps0 = 0" "ps_updated ps0 = 0"
    "ps_deleted ps0 = 0"
    by (simp_all add: ps0_def)
  have s1: "foldl (sweep_mapping (map sid ss)) ps0 (mappings (db st)) = ps0"
    unfolding ss_def by (rule in_step_sweeps(1) [OF step])
  have s2: "sweep_calendar now (map sid ss) (expected_uids_of ss (mappings (db st))) ps0 =
      (ps0, Some n)"
    unfolding ss_def n_def by (rule in_step_sweeps(2) [OF step p0(2)])
  have i0: "in_step (ps_db ps0) (ps_cal ps0)"
    unfolding p0 by (rule step)
  have sub: "set ss \<subseteq> set (sessions (ps_db ps0))"
    by (simp add: ss_def get_all_sessions_def p0)
  obtain ps' where run: "push_sessions now ps0 ss = (None, ps')" and d': "ps_db ps' = ps_db ps0"
    and i': "in_step (ps_db ps') (ps_cal ps')"
    and k': "ps_synced ps' = ps_synced ps0" "ps_updated ps' = ps_updated ps0 + length ss"
      "ps_deleted ps' = ps_deleted ps0"
    using i0 sub by (rule push_sessions_in_step)
  have len: "length ss = length (sessions (db st))"
    by (simp add: ss_def get_all_sessions_def)
  have counts: "ps_synced ps' = 0" "ps_updated ps' = length (sessions (db st))"
    "ps_deleted ps' = 0" "ps_db ps' = db st"
    unfolding k' d' p0 len by simp_all
  have run': "sync_to_calendar now st =
      (PushOk 0 (length (sessions (db st))) 0
         (push_message_of 0 (length (sessions (db st))) 0 (length ss) (length (mappings (db st)))
            (Some n)),
       st\<lparr>db := db st, cal := ps_cal ps'\<rparr>)"
    unfolding sync_to_calendar_connected [OF conn] all_mappings Let_def
      ss_def [symmetric] ps0_def [symmetric] s1 s2 prod.case run option.case counts ..
  have "\<forall>m \<in> set (mappings (db st)). session_id m \<in> sid ` set (sessions (db st))"
    using step unfolding in_step_def by blast
  then have "sessions (db st) = [] \<Longrightarrow> mappings (db st) = []"
    by (cases "mappings (db st)") auto
  then have "push_message_of 0 (length (sessions (db st))) 0 (length ss)
      (length (mappings (db st))) (Some n) =
      ''Synced 0 new, updated '' @ str_nat (length (sessions (db st))) @ '' existing''"
    unfolding len by (auto simp: push_message_of_def digit_char_def)
  then have "sync_to_calendar now st =
      (PushOk 0 (length (sessions (db st))) 0
         (''Synced 0 new, updated '' @ str_nat (length (sessions (db st))) @ '' existing''),
       st\<lparr>db := db st, cal := ps_cal ps'\<rparr>)"
    using run' by simp
  moreover have "in_step (db st) (ps_cal ps')"
    using i' unfolding counts .
  ultimately show thesis
    by (rule that)
qed

lemma update_session_keys:
  "map sid (sessions (update_session d i tn ds st et stat cs)) = map sid (sessions d)"
  "mappings (update_session d i tn ds st et stat cs) = mappings d"
  by (simp_all add: update_session_def apply_updates_def o_def split: option.splits)

lemma in_step_same_keys:
  assumes "map sid (sessions d') = map sid (sessions d)" and "mappings d' = mappings d"
  shows "in_step d' c = in_step d c"
proof -
  have "sid ` set (sessions d') = sid ` set (sessions d)"
    using arg_cong [OF assms(1), of set] by simp
  then have "(\<forall>s \<in> set (sessions d'). P (sid s)) = (\<forall>s \<in> set (sessions d). P (sid s))" for P
    by (metis (no_types, lifting) image_iff)
  note sessions = this [of "\<lambda>i. i \<noteq> 0 \<and> i \<in> session_id ` set (mappings d)"]
  show ?thesis
    unfolding in_step_def assms(2) sessions
      \<open>sid ` set (sessions d') = sid ` set (sessions d)\<close> ..
qed

lemma pull_event_in_step:
  assumes step: "in_step (pl_db pl) c" and ev: "ev \<in> set (cal_events c)"
  shows "pl_imported (pull_event h now pl ev) = pl_imported pl \<and>
         pl_updated (pull_event h now pl ev) = pl_updated pl + (if recognised ev then 1 else 0) \<and>
         pl_skipped (pull_event h now pl ev) = pl_skipped pl + (if recognised ev then 0 else 1) \<and>
         map sid (sessions (pl_db (pull_event h now pl ev))) = map sid (sessions (pl_db pl)) \<and>
         mappings (pl_db (pull_event h now pl ev)) = mappings (pl_db pl)"
proof (cases "recognised ev")
  case False
  then have "pull_event h now pl ev = pl\<lparr>pl_skipped := pl_skipped pl + 1\<rparr>"
    by (simp add: pull_event_def has_marker_def recognised_def)
  then show ?thesis
    using False by simp
next
  case True
  then have ours: "is_pomodoro_uid (ev_uid ev) \<or> has_marker (ev_summary ev)"
    by (simp add: recognised_def)
  define d where "d = pl_db pl"
  note inv = step [unfolded in_step_def, folded d_def]
  have mapped: "ev_uid ev \<in> calendar_uid ` set (mappings d)"
    using inv ev ours by blast
  then obtain m0 where m0: "m0 \<in> set (mappings d)" "calendar_uid m0 = ev_uid ev"
    by auto
  have uid: "ev_uid ev \<noteq> []"
    using inv m0 by metis
  obtain a b where ab: "ev_dtstart ev = Some (DateTime a)" "ev_dtend ev = Some (DateTime b)"
    using inv ev mapped by blast
  have eu: "effective_uid h ev (DateTime a) = ev_uid ev"
    using uid by (simp add: effective_uid_def)
  have dur: "seconds_between (event_end ev (DateTime a)) (DateTime a) = Inr (b - a)"
    using ab(2) by (rule date_time_event_times(3))
  have i: "pull_event h now pl ev =
      store_event now pl ev (ev_uid ev) (derive_task_name (ev_summary ev)) (instant (DateTime a))
        (instant (event_end ev (DateTime a))) (b - a)"
    using pull_event_recognised [OF ours ab(1), of h now pl]
    unfolding eu import_event_timed [OF ab(1) dur] .
  have "filter (\<lambda>m. calendar_uid m = ev_uid ev) (mappings d) \<noteq> []"
    using m0 by (auto simp: filter_empty_conv)
  then obtain m ms where rows: "filter (\<lambda>m. calendar_uid m = ev_uid ev) (mappings d) = m # ms"
    by (cases "filter (\<lambda>m. calendar_uid m = ev_uid ev) (mappings d)") auto
  have lookup: "get_sync_mapping (pl_db pl) None (Some (ev_uid ev)) = m # ms"
    using uid rows by (simp add: get_sync_mapping_def given_int_def given_str_def d_def)
  have "m \<in> set (filter (\<lambda>m. calendar_uid m = ev_uid ev) (mappings d))"
    unfolding rows by simp
  then have "m \<in> set (mappings d)"
    by simp
  then have "session_id m \<in> sid ` set (sessions d)"
    using inv by blast
  then have "filter (\<lambda>s. sid s = session_id m) (sessions d) \<noteq> []"
    by (auto simp: filter_empty_conv)
  then have live: "session_exists (pl_db pl) (session_id m)"
    by (simp add: session_exists_def d_def)
  show ?thesis
    unfolding i store_event_def
    using True by (simp add: lookup live update_session_keys)
qed

lemma pull_events_in_step:
  assumes "in_step (pl_db pl) c" and "set evs \<subseteq> set (cal_events c)"
  shows "pl_imported (foldl (pull_event h now) pl evs) = pl_imported pl \<and>
         pl_updated (foldl (pull_event h now) pl evs) =
           pl_updated pl + length (filter recognised evs) \<and>
         pl_skipped (foldl (pull_event h now) pl evs) =
           pl_skipped pl + length (filter (\<lambda>e. \<not> recognised e) evs) \<and>
         in_step (pl_db (foldl (pull_event h now) pl evs)) c"
  using assms
proof (induction evs arbitrary: pl)
  case Nil
  then show ?case by simp
next
  case (Cons ev evs)
  have ev: "ev \<in> set (cal_events c)" and rest: "set evs \<subseteq> set (cal_events c)"
    using Cons.prems(2) by simp_all
  note one = pull_event_in_step [OF Cons.prems(1) ev, of h now]
  have "in_step (pl_db (pull_event h now pl ev)) c"
    using in_step_same_keys [of "pl_db (pull_event h now pl ev)" "pl_db pl" c] one Cons.prems(1)
    by simp
  from Cons.IH [OF this rest] one show ?case
    by simp
qed

lemma pull_in_step:
  assumes conn: "connected st" and step: "in_step (db st) (cal st)"
  obtains d' where
    "sync_from_calendar h now st =
       (PullOk 0 (length (filter recognised (window now (cal st))))
          (length (window now (cal st)))
          (length (filter (\<lambda>e. \<not> recognised e) (window now (cal st))))
          (pull_message_of (length (window now (cal st))) 0
             (length (filter recognised (window now (cal st))))
             (length (filter (\<lambda>e. \<not> recognised e) (window now (cal st))))),
        st\<lparr>db := d'\<rparr>)"
    and "in_step d' (cal st)"
proof -
  define evs where "evs = window now (cal st)"
  define pl0 where "pl0 = \<lparr>pl_db = db st, pl_imported = 0, pl_updated = 0, pl_skipped = 0\<rparr>"
  define pl where "pl = foldl (pull_event h now) pl0 evs"
  have r: "search_range (cal st) (now - year_seconds) (now + year_seconds) = Inr evs"
    using step unfolding in_step_def never_fails_def
    by (simp add: search_range_def evs_def window_def)
  have i0: "in_step (pl_db pl0) (cal st)"
    using step by (simp add: pl0_def)
  have sub: "set evs \<subseteq> set (cal_events (cal st))"
    by (auto simp: evs_def window_def)
  have res: "pl_imported pl = 0" "pl_updated pl = length (filter recognised evs)"
    "pl_skipped pl = length (filter (\<lambda>e. \<not> recognised e) evs)" "in_step (pl_db pl) (cal st)"
    using pull_events_in_step [OF i0 sub, of h now] unfolding pl_def by (simp_all add: pl0_def)
  have e: "ensure_connected st = (None, st)"
    using conn by (simp add: ensure_connected_def)
  have "sync_from_calendar h now st =
      (PullOk 0 (length (filter recognised evs)) (length evs)
         (length (filter (\<lambda>e. \<not> recognised e) evs))
         (pull_message_of (length evs) 0 (length (filter recognised evs))
            (length (filter (\<lambda>e. \<not> recognised e) evs))),
       st\<lparr>db := pl_db pl\<rparr>)"
    unfolding sync_from_calendar_def e prod.case option.case r sum.case Let_def
      pl0_def [symmetric] pl_def [symmetric] res(1-3) ..
  then show thesis
    using res(4) unfolding evs_def by (rule that)
qed

lemma sync_in_step:
  assumes conn: "connected st" and step: "in_step (db st) (cal st)"
  shows "fst (sync h now st) =
           \<lparr>success = True,
            to_calendar = PushOk 0 (length (sessions (db st))) 0
              (''Synced 0 new, updated '' @ str_nat (length (sessions (db st))) @ '' existing''),
            from_calendar =
              PullOk 0 (length (filter recognised (window now (cal (after_sync h now st)))))
                (length (window now (cal (after_sync h now st))))
                (length (filter (\<lambda>e. \<not> recognised e) (window now (cal (after_sync h now st)))))
                (pull_message_of (length (window now (cal (after_sync h now st)))) 0
                   (length (filter recognised (window now (cal (after_sync h now st)))))
                   (length (filter (\<lambda>e. \<not> recognised e)
                      (window now (cal (after_sync h now st))))))\<rparr> \<and>
         connected (after_sync h now st) \<and>
         in_step (db (after_sync h now st)) (cal (after_sync h now st))"
proof -
  obtain c' where
    push: "sync_to_calendar now st =
       (PushOk 0 (length (sessions (db st))) 0
          (''Synced 0 new, updated '' @ str_nat (length (sessions (db st))) @ '' existing''),
        st\<lparr>db := db st, cal := c'\<rparr>)"
    and i1: "in_step (db st) c'"
    using conn step by (rule push_in_step)
  define st1 where "st1 = st\<lparr>db := db st, cal := c'\<rparr>"
  have st1: "connected st1" "db st1 = db st" "cal st1 = c'"
    using conn by (simp_all add: st1_def)
  have i1': "in_step (db st1) (cal st1)"
    unfolding st1 by (rule i1)
  obtain d' where
    pull: "sync_from_calendar h now st1 =
       (PullOk 0 (length (filter recognised (window now (cal st1))))
          (length (window now (cal st1)))
          (length (filter (\<lambda>e. \<not> recognised e) (window now (cal st1))))
          (pull_message_of (length (window now (cal st1))) 0
             (length (filter recognised (window now (cal st1))))
             (length (filter (\<lambda>e. \<not> recognised e) (window now (cal st1))))),
        st1\<lparr>db := d'\<rparr>)"
    and i2: "in_step d' (cal st1)"
    using st1(1) i1' by (rule pull_in_step)
  have run: "sync h now st =
      (\<lparr>success = True,
        to_calendar = PushOk 0 (length (sessions (db st))) 0
          (''Synced 0 new, updated '' @ str_nat (length (sessions (db st))) @ '' existing''),
        from_calendar =
          PullOk 0 (length (filter recognised (window now (cal st1))))
            (length (window now (cal st1)))
            (length (filter (\<lambda>e. \<not> recognised e) (window now (cal st1))))
            (pull_message_of (length (window now (cal st1))) 0
               (length (filter recognised (window now (cal st1))))
               (length (filter (\<lambda>e. \<not> recognised e) (window now (cal st1)))))\<rparr>,
       st1\<lparr>db := d'\<rparr>)"
    unfolding sync_def push st1_def [symmetric] Let_def prod.case pull
    by (simp add: push_ok_def pull_ok_def)
  have after: "after_sync h now st = st1\<lparr>db := d'\<rparr>"
    unfolding after_sync_def run by simp
  have same: "cal (st1\<lparr>db := d'\<rparr>) = cal st1" "db (st1\<lparr>db := d'\<rparr>) = d'"
    "connected (st1\<lparr>db := d'\<rparr>) = connected st1"
    by simp_all
  show ?thesis
    unfolding after same run fst_conv using st1(1) i2 by simp
qed

section \<open>Two syncs in a row\<close>

lemma reading_label: "derive_task_name (session_summary reading_session) = task_name reading_session"
  by (simp add: session_summary_def reading_session_def derive_task_name_def tomato_def
      strip_simps)

lemma writing_label: "derive_task_name (session_summary second_session) = task_name second_session"
  by (simp add: session_summary_def second_session_def derive_task_name_def tomato_def
      strip_simps)

lemma session_uids:
  "session_uid 1 = ''pomodoro-1@pomodoro-timer''" "session_uid 2 = ''pomodoro-2@pomodoro-timer''"
  by (simp_all add: session_uid_def str_int_def digit_char_def)

lemma pomodoro_uids:
  "is_pomodoro_uid ''pomodoro-1@pomodoro-timer''" "is_pomodoro_uid ''pomodoro-2@pomodoro-timer''"
  by (simp_all add: is_pomodoro_uid_def startswith_def)

lemma reading_first_push:
  "sync_to_calendar 7 (engine_of (store_of [reading_session] []) (reliable_server [])) =
     (PushOk 1 0 0 ''Synced 1 new, updated 0 existing'', reading_synced)"
proof -
  have c: "connected (engine_of (store_of [reading_session] []) (reliable_server []))"
    by (simp add: engine_of_def)
  show ?thesis
    unfolding sync_to_calendar_connected [OF c]
    by (simp add: Let_def engine_of_def get_all_sessions_def store_of_def all_mappings
        sweep_calendar_def search_range_def reliable_server_def push_session_def
        get_sync_mapping_def given_int_def given_str_def add_event_def reading_session_def
        session_uids expected_uids_of_def year_seconds_def set_sync_mapping_def
        set_sync_mapping_rows_def push_message_of_def digit_char_def reading_synced_def
        pushed_event_def)
qed

text \<open>Pulling the event that push wrote for a session whose mapping is in place.\<close>

lemma pull_own_event:
  assumes "u \<noteq> []"
    and "get_sync_mapping (pl_db pl) None (Some u) = m # ms"
    and "session_exists (pl_db pl) (session_id m)"
    and "derive_task_name (session_summary s) = task_name s"
  shows "pull_event h now pl (pushed_event s u) =
           pl\<lparr>pl_db := update_session (pl_db pl) (session_id m) (Some (task_name s))
                          (Some (session_end s - start_time s)) (Some (start_time s))
                          (Some (session_end s)) None None,
              pl_updated := pl_updated pl + 1\<rparr>"
  unfolding pull_pushed_event [OF assms(1)] store_event_def assms(4)
  using assms(2,3) by simp

lemma reading_pull:
  "sync_from_calendar constant_hash 7 reading_synced =
     (PullOk 0 1 1 0 ''Found 1 events. Imported 0 new, updated 1 existing'', reading_synced)"
proof -
  let ?u = "''pomodoro-1@pomodoro-timer''"
  let ?ev = "pushed_event reading_session ?u"
  let ?d = "db reading_synced"
  let ?pl = "\<lparr>pl_db = ?d, pl_imported = 0, pl_updated = 0, pl_skipped = 0\<rparr>"
  have e: "ensure_connected reading_synced = (None, reading_synced)"
    by (simp add: ensure_connected_def reading_synced_def engine_of_def)
  have r: "search_range (cal reading_synced) (7 - year_seconds) (7 + year_seconds) = Inr [?ev]"
    by (simp add: search_range_def reading_synced_def engine_of_def reliable_server_def
        pushed_event_def reading_session_def year_seconds_def instant_def)
  have m: "get_sync_mapping (pl_db ?pl) None (Some ?u) =
      \<lparr>session_id = 1, calendar_uid = ?u, calendar_url = None, last_synced = 7\<rparr> # []"
    by (simp add: get_sync_mapping_def given_int_def given_str_def reading_synced_def
        engine_of_def store_of_def)
  have x: "session_exists (pl_db ?pl)
      (session_id \<lparr>session_id = 1, calendar_uid = ?u, calendar_url = None, last_synced = 7\<rparr>)"
    by (simp add: session_exists_def reading_synced_def engine_of_def store_of_def
        reading_session_def)
  have u: "update_session ?d 1 (Some (task_name reading_session))
      (Some (session_end reading_session - start_time reading_session))
      (Some (start_time reading_session)) (Some (session_end reading_session)) None None = ?d"
    by (simp add: update_session_def apply_updates_def reading_synced_def engine_of_def
        store_of_def reading_session_def session_end_def)
  have step: "pull_event constant_hash 7 ?pl ?ev =
      \<lparr>pl_db = ?d, pl_imported = 0, pl_updated = 1, pl_skipped = 0\<rparr>"
    unfolding pull_own_event [of ?u, OF _ m x reading_label, simplified]
    using u by simp
  have same: "reading_synced\<lparr>db := ?d\<rparr> = reading_synced"
    by simp
  show ?thesis
    unfolding sync_from_calendar_def e prod.case option.case r sum.case Let_def
    by (simp add: step same pull_message_of_def digit_char_def)
qed

lemma reading_second_push:
  "sync_to_calendar 7 reading_synced =
     (PushOk 0 1 0 ''Synced 0 new, updated 1 existing'', reading_synced)"
proof -
  have c: "connected reading_synced"
    by (simp add: reading_synced_def engine_of_def)
  show ?thesis
    unfolding sync_to_calendar_connected [OF c]
    by (simp add: Let_def reading_synced_def engine_of_def get_all_sessions_def store_of_def
        all_mappings sweep_mapping_def sweep_calendar_def search_range_def reliable_server_def
        sweep_event_def pomodoro_uids expected_uids_of_def push_session_def get_sync_mapping_def
        given_int_def given_str_def search_uid_def update_event_def event_save_def
        pushed_event_def year_seconds_def push_message_of_def digit_char_def instant_def)
       (simp add: reading_session_def session_end_def)
qed

lemma reading_first_sync:
  "sync constant_hash 7 (engine_of (store_of [reading_session] []) (reliable_server [])) =
     (\<lparr>success = True, to_calendar = PushOk 1 0 0 ''Synced 1 new, updated 0 existing'',
       from_calendar = PullOk 0 1 1 0 ''Found 1 events. Imported 0 new, updated 1 existing''\<rparr>,
      reading_synced)"
  unfolding sync_def reading_first_push Let_def prod.case reading_pull
  by (simp add: push_ok_def pull_ok_def)

lemma reading_second_sync:
  "sync constant_hash 7 reading_synced =
     (\<lparr>success = True, to_calendar = PushOk 0 1 0 ''Synced 0 new, updated 1 existing'',
       from_calendar = PullOk 0 1 1 0 ''Found 1 events. Imported 0 new, updated 1 existing''\<rparr>,
      reading_synced)"
  unfolding sync_def reading_second_push Let_def prod.case reading_pull
  by (simp add: push_ok_def pull_ok_def)

text \<open>The two syncs of the store with the crossed mapping, on a server that starts empty.\<close>

lemma crossed_sessions:
  "get_all_sessions \<lparr>sessions = [reading_session, second_session], mappings = ms, next_id = n\<rparr> =
     [second_session, reading_session]"
  by (simp add: get_all_sessions_def reading_session_def second_session_def)

lemma crossed_first_push:
  "sync_to_calendar 7 (engine_of crossed_store (reliable_server [])) =
     (PushOk 2 0 0 ''Synced 2 new, updated 0 existing'', crossed_once)"
proof -
  have c: "connected (engine_of crossed_store (reliable_server []))"
    by (simp add: engine_of_def)
  have d: "db (engine_of crossed_store (reliable_server [])) =
      \<lparr>sessions = [reading_session, second_session],
       mappings = [link 2 ''pomodoro-1@pomodoro-timer''], next_id = 3\<rparr>"
    by (simp add: engine_of_def crossed_store_def store_of_def reading_session_def
        second_session_def)
  have ids: "sid reading_session = 1" "sid second_session = 2"
    by (simp_all add: reading_session_def second_session_def)
  show ?thesis
    unfolding sync_to_calendar_connected [OF c] d crossed_sessions
    by (simp add: Let_def engine_of_def all_mappings ids link_def sweep_mapping_def
        sweep_calendar_def search_range_def reliable_server_def push_session_def
        get_sync_mapping_def given_int_def given_str_def search_uid_def recreate_mapped_def
        add_event_def session_uids expected_uids_of_def year_seconds_def set_sync_mapping_def
        set_sync_mapping_rows_def push_message_of_def digit_char_def crossed_once_def
        pushed_event_def url_for_def)
qed

lemma crossed_first_pull:
  "sync_from_calendar constant_hash 7 crossed_once =
     (PullOk 0 1 1 0 ''Found 1 events. Imported 0 new, updated 1 existing'', crossed_once)"
proof -
  let ?u = "''pomodoro-1@pomodoro-timer''"
  let ?ev = "pushed_event reading_session ?u"
  let ?d = "db crossed_once"
  let ?pl = "\<lparr>pl_db = ?d, pl_imported = 0, pl_updated = 0, pl_skipped = 0\<rparr>"
  have e: "ensure_connected crossed_once = (None, crossed_once)"
    by (simp add: ensure_connected_def crossed_once_def engine_of_def)
  have r: "search_range (cal crossed_once) (7 - year_seconds) (7 + year_seconds) = Inr [?ev]"
    by (simp add: search_range_def crossed_once_def engine_of_def reliable_server_def
        pushed_event_def reading_session_def year_seconds_def instant_def)
  have m: "get_sync_mapping (pl_db ?pl) None (Some ?u) =
      \<lparr>session_id = 1, calendar_uid = ?u, calendar_url = None, last_synced = 7\<rparr> # []"
    by (simp add: get_sync_mapping_def given_int_def given_str_def crossed_once_def
        engine_of_def)
  have x: "session_exists (pl_db ?pl)
      (session_id \<lparr>session_id = 1, calendar_uid = ?u, calendar_url = None, last_synced = 7\<rparr>)"
    by (simp add: session_exists_def crossed_once_def engine_of_def reading_session_def)
  have u: "update_session ?d 1 (Some (task_name reading_session))
      (Some (session_end reading_session - start_time reading_session))
      (Some (start_time reading_session)) (Some (session_end reading_session)) None None = ?d"
    by (simp add: update_session_def apply_updates_def crossed_once_def engine_of_def
        reading_session_def second_session_def session_end_def)
  have step: "pull_event constant_hash 7 ?pl ?ev =
      \<lparr>pl_db = ?d, pl_imported = 0, pl_updated = 1, pl_skipped = 0\<rparr>"
    unfolding pull_own_event [of ?u, OF _ m x reading_label, simplified]
    using u by simp
  have same: "crossed_once\<lparr>db := ?d\<rparr> = crossed_once"
    by simp
  show ?thesis
    unfolding sync_from_calendar_def e prod.case option.case r sum.case Let_def
    by (simp add: step same pull_message_of_def digit_char_def)
qed

lemma crossed_second_push:
  "sync_to_calendar 7 crossed_once =
     (PushOk 1 1 0 ''Synced 1 new, updated 1 existing'', crossed_twice)"
proof -
  let ?u1 = "''pomodoro-1@pomodoro-timer''"
  let ?u2 = "''pomodoro-2@pomodoro-timer''"
  let ?m1 = "\<lparr>session_id = 1, calendar_uid = ?u1, calendar_url = None, last_synced = 7\<rparr>"
  let ?m2 = "\<lparr>session_id = 2, calendar_uid = ?u2, calendar_url = None, last_synced = 7\<rparr>"
  let ?ev1 = "pushed_event reading_session ?u1"
  let ?ev2 = "pushed_event second_session ?u2"
  let ?d = "\<lparr>sessions = [reading_session, second_session], mappings = [?m1], next_id = 3\<rparr>"
  let ?d' = "\<lparr>sessions = [reading_session, second_session], mappings = [?m1, ?m2],
      next_id = 3\<rparr>"
  let ?ps0 = "\<lparr>ps_db = ?d, ps_cal = reliable_server [?ev1], ps_synced = 0, ps_updated = 0,
      ps_deleted = 0\<rparr>"
  let ?ps1 = "\<lparr>ps_db = ?d', ps_cal = reliable_server [?ev1, ?ev2], ps_synced = 1,
      ps_updated = 0, ps_deleted = 0\<rparr>"
  let ?ps2 = "\<lparr>ps_db = ?d', ps_cal = reliable_server [?ev1, ?ev2], ps_synced = 1,
      ps_updated = 1, ps_deleted = 0\<rparr>"
  let ?expected = "expected_uids_of [second_session, reading_session] [?m1]"
  have c: "connected crossed_once"
    by (simp add: crossed_once_def engine_of_def)
  have d: "db crossed_once = ?d" "cal crossed_once = reliable_server [?ev1]"
    by (simp_all add: crossed_once_def engine_of_def)
  have ids: "map sid [second_session, reading_session] = [2, 1]"
    by (simp add: reading_session_def second_session_def)
  have s1: "foldl (sweep_mapping [2, 1]) ?ps0 [?m1] = ?ps0"
    by (simp add: sweep_mapping_def)
  have r: "search_range (reliable_server [?ev1]) (7 - year_seconds) (7 + year_seconds) =
      Inr [?ev1]"
    by (simp add: search_range_def reliable_server_def pushed_event_def reading_session_def
        year_seconds_def instant_def)
  have x: "ev_uid ?ev1 \<in> set ?expected"
    by (simp add: expected_uids_of_def pushed_event_def reading_session_def second_session_def)
  have s2: "sweep_calendar 7 [2, 1] ?expected ?ps0 = (?ps0, Some 1)"
    unfolding sweep_calendar_def
    using x by (simp add: r sweep_event_def)
  have ev2: "pushed_event second_session ?u2 =
      \<lparr>ev_uid = ?u2, ev_summary = session_summary second_session,
       ev_description = session_description second_session,
       ev_dtstart = Some (DateTime (start_time second_session)),
       ev_dtend = Some (DateTime (session_end second_session)), ev_url = url_for ?u2\<rparr>"
    by (simp add: pushed_event_def)
  have p1: "push_session 7 ?ps0 second_session = Inr ?ps1"
    unfolding ev2
    by (simp add: push_session_def get_sync_mapping_def given_int_def second_session_def
        session_uids add_event_def reliable_server_def set_sync_mapping_def
        set_sync_mapping_rows_def pushed_event_def url_for_def)
  have found: "search_uid (reliable_server [?ev1, ?ev2]) ?u1 = Inr [?ev1]"
    by (simp add: search_uid_def reliable_server_def pushed_event_def)
  have ev1: "?ev1\<lparr>ev_summary := session_summary reading_session,
        ev_description := session_description reading_session,
        ev_dtstart := Some (DateTime (start_time reading_session)),
        ev_dtend := Some (DateTime (session_end reading_session))\<rparr> = ?ev1"
    by (simp add: pushed_event_def)
  have saved: "event_save (reliable_server [?ev1, ?ev2]) ?ev1 = Inr (reliable_server [?ev1, ?ev2])"
    by (simp add: event_save_def reliable_server_def pushed_event_def url_for_def)
  have times: "ev_dtstart ?ev1 = Some (DateTime (start_time reading_session))"
    "ev_dtend ?ev1 = Some (DateTime (session_end reading_session))"
    by (simp_all add: pushed_event_def)
  have upd: "update_event ?ps1 reading_session ?u1 ?ev1 = ?ps2"
    unfolding update_event_def ev1 by (simp add: times saved)
  have look: "get_sync_mapping (ps_db ?ps1) (Some (sid reading_session)) None = [?m1]"
    by (simp add: get_sync_mapping_def given_int_def reading_session_def)
  have p2: "push_session 7 ?ps1 reading_session = Inr ?ps2"
    unfolding push_session_def look
    using found upd by simp
  have loop: "push_sessions 7 ?ps0 [second_session, reading_session] = (None, ?ps2)"
    by (simp only: push_sessions.simps p1 p2 sum.case)
  have g: "get_all_sessions (db crossed_once) = [second_session, reading_session]"
    unfolding d by (rule crossed_sessions)
  have ms: "mappings (db crossed_once) = [?m1]"
    unfolding d by simp
  have s1': "foldl (sweep_mapping (map sid [second_session, reading_session]))
      \<lparr>ps_db = db crossed_once, ps_cal = cal crossed_once, ps_synced = 0, ps_updated = 0,
        ps_deleted = 0\<rparr> [?m1] = ?ps0"
    unfolding d ids by (rule s1)
  have s2': "sweep_calendar 7 (map sid [second_session, reading_session]) ?expected ?ps0 =
      (?ps0, Some 1)"
    unfolding ids by (rule s2)
  note run = sync_to_calendar_steps [OF c g ms s1' s2' loop]
  have twice: "crossed_once\<lparr>db := ?d', cal := reliable_server [?ev1, ?ev2]\<rparr> = crossed_twice"
    by (simp add: crossed_once_def crossed_twice_def engine_of_def)
  show ?thesis
    unfolding run by (simp add: twice push_message_of_def digit_char_def)
qed

lemma crossed_second_pull:
  "sync_from_calendar constant_hash 7 crossed_twice =
     (PullOk 0 2 2 0 ''Found 2 events. Imported 0 new, updated 2 existing'', crossed_twice)"
proof -
  let ?u1 = "''pomodoro-1@pomodoro-timer''"
  let ?u2 = "''pomodoro-2@pomodoro-timer''"
  let ?ev1 = "pushed_event reading_session ?u1"
  let ?ev2 = "pushed_event second_session ?u2"
  let ?d = "db crossed_twice"
  let ?pl = "\<lparr>pl_db = ?d, pl_imported = 0, pl_updated = 0, pl_skipped = 0\<rparr>"
  let ?pl1 = "\<lparr>pl_db = ?d, pl_imported = 0, pl_updated = 1, pl_skipped = 0\<rparr>"
  have e: "ensure_connected crossed_twice = (None, crossed_twice)"
    by (simp add: ensure_connected_def crossed_twice_def engine_of_def)
  have r: "search_range (cal crossed_twice) (7 - year_seconds) (7 + year_seconds) =
      Inr [?ev1, ?ev2]"
    by (simp add: search_range_def crossed_twice_def engine_of_def reliable_server_def
        pushed_event_def reading_session_def second_session_def year_seconds_def instant_def)
  have m1: "get_sync_mapping (pl_db ?pl) None (Some ?u1) =
      \<lparr>session_id = 1, calendar_uid = ?u1, calendar_url = None, last_synced = 7\<rparr> #
      []"
    by (simp add: get_sync_mapping_def given_int_def given_str_def crossed_twice_def
        engine_of_def)
  have m2: "get_sync_mapping (pl_db ?pl1) None (Some ?u2) =
      \<lparr>session_id = 2, calendar_uid = ?u2, calendar_url = None, last_synced = 7\<rparr> # []"
    by (simp add: get_sync_mapping_def given_int_def given_str_def crossed_twice_def
        engine_of_def)
  have x1: "session_exists (pl_db ?pl)
      (session_id \<lparr>session_id = 1, calendar_uid = ?u1, calendar_url = None, last_synced = 7\<rparr>)"
    by (simp add: session_exists_def crossed_twice_def engine_of_def reading_session_def)
  have x2: "session_exists (pl_db ?pl1)
      (session_id \<lparr>session_id = 2, calendar_uid = ?u2, calendar_url = None, last_synced = 7\<rparr>)"
    by (simp add: session_exists_def crossed_twice_def engine_of_def second_session_def)
  have u1: "update_session ?d 1 (Some (task_name reading_session))
      (Some (session_end reading_session - start_time reading_session))
      (Some (start_time reading_session)) (Some (session_end reading_session)) None None = ?d"
    by (simp add: update_session_def apply_updates_def crossed_twice_def engine_of_def
        reading_session_def second_session_def session_end_def)
  have u2: "update_session ?d 2 (Some (task_name second_session))
      (Some (session_end second_session - start_time second_session))
      (Some (start_time second_session)) (Some (session_end second_session)) None None = ?d"
    by (simp add: update_session_def apply_updates_def crossed_twice_def engine_of_def
        reading_session_def second_session_def session_end_def)
  have step1: "pull_event constant_hash 7 ?pl ?ev1 = ?pl1"
    unfolding pull_own_event [of ?u1, OF _ m1 x1 reading_label, simplified]
    using u1 by simp
  have named: "?u2 \<noteq> []"
    by simp
  have step2: "pull_event constant_hash 7 ?pl1 ?ev2 =
      \<lparr>pl_db = ?d, pl_imported = 0, pl_updated = 2, pl_skipped = 0\<rparr>"
    using pull_own_event [OF named m2 x2 writing_label, of constant_hash 7] u2 by simp
  have both: "foldl (pull_event constant_hash 7) ?pl [?ev1, ?ev2] =
      \<lparr>pl_db = ?d, pl_imported = 0, pl_updated = 2, pl_skipped = 0\<rparr>"
    by (simp only: foldl_Cons foldl_Nil step1 step2)
  have same: "crossed_twice\<lparr>db := ?d\<rparr> = crossed_twice"
    by simp
  show ?thesis
    unfolding sync_from_calendar_def e prod.case option.case r sum.case Let_def both
    by (simp add: same pull_message_of_def digit_char_def)
qed

lemma crossed_first_sync:
  "sync constant_hash 7 (engine_of crossed_store (reliable_server [])) =
     (\<lparr>success = True, to_calendar = PushOk 2 0 0 ''Synced 2 new, updated 0 existing'',
       from_calendar = PullOk 0 1 1 0 ''Found 1 events. Imported 0 new, updated 1 existing''\<rparr>,
      crossed_once)"
  unfolding sync_def crossed_first_push Let_def prod.case crossed_first_pull
  by (simp add: push_ok_def pull_ok_def)

lemma crossed_second_sync:
  "sync constant_hash 7 crossed_once =
     (\<lparr>success = True, to_calendar = PushOk 1 1 0 ''Synced 1 new, updated 1 existing'',
       from_calendar = PullOk 0 2 2 0 ''Found 2 events. Imported 0 new, updated 2 existing''\<rparr>,
      crossed_twice)"
  unfolding sync_def crossed_second_push Let_def prod.case crossed_second_pull
  by (simp add: push_ok_def pull_ok_def)

text \<open>
  Claim C1, as the spec words it: the second of two syncs in a row, with no change in
  between, counts no create, no update and no delete, whatever the store, the mapping table
  and the calendar. It is false of the code, on a server that accepts every call. Sessions 1
  and 2 are in the store, session 2 mapped to the UID that push derives for session 1 (a
  pull imported it from an event of that UID), and the calendar is empty. The first sync
  writes the events of both sessions to the one UID and the mapping of session 1 replaces
  that of session 2; the second sync therefore creates an event for session 2, and it counts
  an update for session 1 in its push and for both events in its pull, although nothing
  differs: the code saves a mapped event and rewrites a mapped session without comparing
  them first.
\<close>

theorem second_sync_counts_updates_counterexample:
  "fst (sync constant_hash 7
     (snd (sync constant_hash 7 (engine_of crossed_store (reliable_server []))))) =
   \<lparr>success = True, to_calendar = PushOk 1 1 0 ''Synced 1 new, updated 1 existing'',
    from_calendar = PullOk 0 2 2 0 ''Found 2 events. Imported 0 new, updated 2 existing''\<rparr>"
  unfolding crossed_first_sync snd_conv crossed_second_sync fst_conv ..

text \<open>
  Claim C1, amended. When the first of two syncs in a row leaves the engine connected and
  the store and the server in step (the server's searches and saves succeed, every session
  is mapped to an event that exists, every mapping belongs to a session, the events sit at
  different URLs, those of a mapped UID with a date-time start and end, and no event of the
  application's is without a mapping), the second sync succeeds and creates and deletes
  nothing, and what it counts as updated is everything there is: its push counts no new and
  no deleted event and every session as updated, its pull imports nothing, counts every
  event of the application's that the server's range search returns as updated and every
  other event as skipped, and store and server are in step again afterwards.
\<close>

theorem second_sync_in_step:
  assumes conn: "connected (after_sync h now st)"
    and step: "in_step (db (after_sync h now st)) (cal (after_sync h now st))"
  shows "fst (sync h now' (after_sync h now st)) =
           \<lparr>success = True,
            to_calendar = PushOk 0 (length (sessions (db (after_sync h now st)))) 0
              (''Synced 0 new, updated '' @
               str_nat (length (sessions (db (after_sync h now st)))) @ '' existing''),
            from_calendar =
              PullOk 0
                (length (filter recognised (window now' (cal (after_two h now now' st)))))
                (length (window now' (cal (after_two h now now' st))))
                (length (filter (\<lambda>e. \<not> recognised e)
                   (window now' (cal (after_two h now now' st)))))
                (pull_message_of (length (window now' (cal (after_two h now now' st)))) 0
                   (length (filter recognised (window now' (cal (after_two h now now' st)))))
                   (length (filter (\<lambda>e. \<not> recognised e)
                      (window now' (cal (after_two h now now' st))))))\<rparr> \<and>
         connected (after_two h now now' st) \<and>
         in_step (db (after_two h now now' st)) (cal (after_two h now now' st))"
  unfolding after_two_def using conn step by (rule sync_in_step)

theorem second_sync_in_step_witness:
  "connected (after_sync constant_hash 7
     (engine_of (store_of [reading_session] []) (reliable_server []))) \<and>
   in_step
     (db (after_sync constant_hash 7
        (engine_of (store_of [reading_session] []) (reliable_server []))))
     (cal (after_sync constant_hash 7
        (engine_of (store_of [reading_session] []) (reliable_server [])))) \<and>
   fst (sync constant_hash 7 (after_sync constant_hash 7
     (engine_of (store_of [reading_session] []) (reliable_server [])))) =
     \<lparr>success = True, to_calendar = PushOk 0 1 0 ''Synced 0 new, updated 1 existing'',
      from_calendar = PullOk 0 1 1 0 ''Found 1 events. Imported 0 new, updated 1 existing''\<rparr> \<and>
   in_step
     (db (after_two constant_hash 7 7
        (engine_of (store_of [reading_session] []) (reliable_server []))))
     (cal (after_two constant_hash 7 7
        (engine_of (store_of [reading_session] []) (reliable_server []))))"
proof -
  let ?st = "engine_of (store_of [reading_session] []) (reliable_server [])"
  let ?ev = "pushed_event reading_session ''pomodoro-1@pomodoro-timer''"
  have once: "after_sync constant_hash 7 ?st = reading_synced"
    unfolding after_sync_def reading_first_sync snd_conv ..
  have twice: "after_two constant_hash 7 7 ?st = reading_synced"
    unfolding after_two_def once unfolding after_sync_def reading_second_sync snd_conv ..
  have a: "connected (after_sync constant_hash 7 ?st)"
    unfolding once by (simp add: reading_synced_def engine_of_def)
  have b: "in_step (db (after_sync constant_hash 7 ?st)) (cal (after_sync constant_hash 7 ?st))"
    unfolding once
    by (simp add: in_step_def never_fails_def reading_synced_def engine_of_def store_of_def
        reliable_server_def pushed_event_def reading_session_def)
  note second = second_sync_in_step [OF a b, of 7]
  have w: "window 7 (cal reading_synced) = [?ev]"
    by (simp add: window_def reading_synced_def engine_of_def reliable_server_def
        pushed_event_def reading_session_def year_seconds_def instant_def)
  have r: "recognised ?ev"
    by (simp add: recognised_def pushed_event_def pomodoro_uids)
  have n: "length (sessions (db reading_synced)) = 1"
    by (simp add: reading_synced_def engine_of_def store_of_def)
  have c: "fst (sync constant_hash 7 (after_sync constant_hash 7 ?st)) =
     \<lparr>success = True, to_calendar = PushOk 0 1 0 ''Synced 0 new, updated 1 existing'',
      from_calendar = PullOk 0 1 1 0 ''Found 1 events. Imported 0 new, updated 1 existing''\<rparr>"
    using conjunct1 [OF second] unfolding twice once w n
    by (simp add: r pull_message_of_def digit_char_def)
  have d: "in_step (db (after_two constant_hash 7 7 ?st)) (cal (after_two constant_hash 7 7 ?st))"
    by (rule conjunct2 [OF conjunct2 [OF second]])
  from a b c d show ?thesis
    by (intro conjI)
qed

end
